theory Spec2Isabelle
  imports Complex_Main
begin

section \<open>Modified median cut quantization (colorthief.py)\<close>

text \<open>
  A shallow embedding of \<^verbatim>\<open>src/colorthief.py\<close>, read as Python 3 (\<^verbatim>\<open>/\<close> is true
  division). Python integers are \<open>int\<close>.
  Python floats are modelled by exact rationals (\<open>rat\<close>): every float the program
  computes from a pixel list of realistic length is a small dyadic rational or a quotient
  of two small integers that is truncated at once, so that no rounding changes a
  comparison or a truncation as long as the pixel count stays far below \<open>2 ^ 44\<close>.
  An outcome is \<open>None\<close> when the program does not return, \<open>Some (Inl e)\<close> when it
  raises, and \<open>Some (Inr x)\<close> when it returns \<open>x\<close>.
\<close>

subsection \<open>Errors and outcomes\<close>

datatype error =
    EmptyInput        \<comment> \<open>\<^verbatim>\<open>Exception('Empty pixels when quantize.')\<close>\<close>
  | InvalidArgument   \<comment> \<open>\<^verbatim>\<open>Exception('Wrong number of max colors when quantize.')\<close>\<close>
  | Vbox1Undefined    \<comment> \<open>\<^verbatim>\<open>Exception("vbox1 not defined; shouldn't happen!")\<close>\<close>
  | IndexError        \<comment> \<open>\<^verbatim>\<open>list.pop\<close> of an empty list, list index out of range\<close>
  | KeyError          \<comment> \<open>\<^verbatim>\<open>partialsum[i]\<close> for a missing key\<close>
  | ZeroDivisionError \<comment> \<open>\<^verbatim>\<open>count / float(total)\<close> with \<open>total = 0\<close>\<close>
  | ValueError        \<comment> \<open>\<^verbatim>\<open>range\<close> with step 0\<close>

type_synonym 'a outcome = "(error + 'a) option"

type_synonym pixel = "int \<times> int \<times> int"
type_synonym histo = "int \<rightharpoonup> int"

text \<open>\<^verbatim>\<open>int(x)\<close> of a float truncates toward zero.\<close>

definition py_int :: "rat \<Rightarrow> int" where
  "py_int x = (if 0 \<le> x then \<lfloor>x\<rfloor> else \<lceil>x\<rceil>)"

text \<open>Truth value of \<^verbatim>\<open>d.get(k, False)\<close> and of \<^verbatim>\<open>d.get(k)\<close> for a dict of integers.\<close>

fun truthy :: "int option \<Rightarrow> bool" where
  "truthy None = False"
| "truthy (Some d) = (d \<noteq> 0)"

subsection \<open>Class MMCQ: constants, colour index, histogram\<close>

definition SIGBITS :: nat where "SIGBITS = 5"
definition RSHIFT :: nat where "RSHIFT = 8 - SIGBITS"
definition MAX_ITERATION :: int where "MAX_ITERATION = 1000"
definition FRACT_BY_POPULATIONS :: rat where "FRACT_BY_POPULATIONS = 3 / 4"

definition get_color_index :: "int \<Rightarrow> int \<Rightarrow> int \<Rightarrow> int" where
  "get_color_index r g b = push_bit (2 * SIGBITS) r + push_bit SIGBITS g + b"

text \<open>\<^verbatim>\<open>histo.get(index, 0)\<close>\<close>

definition histo_get :: "histo \<Rightarrow> int \<Rightarrow> int" where
  "histo_get h index = (case h index of None \<Rightarrow> 0 | Some c \<Rightarrow> c)"

text \<open>The body of the loop of \<^verbatim>\<open>get_histo\<close>: one pixel is counted in its bucket.\<close>

definition histo_add :: "pixel \<Rightarrow> histo \<Rightarrow> histo" where
  "histo_add pixel h =
     (case pixel of (p0, p1, p2) \<Rightarrow>
        let rval = drop_bit RSHIFT p0;
            gval = drop_bit RSHIFT p1;
            bval = drop_bit RSHIFT p2;
            index = get_color_index rval gval bval
        in h(index \<mapsto> histo_get h index + 1))"

definition get_histo :: "pixel list \<Rightarrow> histo" where
  "get_histo pixels = fold histo_add pixels Map.empty"

subsection \<open>Class VBox\<close>

record VBox =
  r1 :: int
  r2 :: int
  g1 :: int
  g2 :: int
  b1 :: int
  b2 :: int
  histo :: histo

definition volume :: "VBox \<Rightarrow> int" where
  "volume v =
     (let sub_r = r2 v - r1 v; sub_g = g2 v - g1 v; sub_b = b2 v - b1 v
      in (sub_r + 1) * (sub_g + 1) * (sub_b + 1))"

definition copy :: "VBox \<Rightarrow> VBox" where
  "copy v = \<lparr>r1 = r1 v, r2 = r2 v, g1 = g1 v, g2 = g2 v, b1 = b1 v, b2 = b2 v,
             histo = histo v\<rparr>"

text \<open>
  The cells visited by the triple loop
  \<^verbatim>\<open>for i in range(r1, r2+1): for j in range(g1, g2+1): for k in range(b1, b2+1)\<close>,
  in the order of the visit.
\<close>

definition cells :: "VBox \<Rightarrow> (int \<times> int \<times> int) list" where
  "cells v =
     concat (map (\<lambda>i. concat (map (\<lambda>j. map (\<lambda>k. (i, j, k)) [b1 v..b2 v]) [g1 v..g2 v]))
       [r1 v..r2 v])"

definition count :: "VBox \<Rightarrow> int" where
  "count v = (\<Sum>(i, j, k) \<leftarrow> cells v. histo_get (histo v) (get_color_index i j k))"

definition avg :: "VBox \<Rightarrow> int \<times> int \<times> int" where
  "avg v =
     (let mult = push_bit (8 - SIGBITS) (1 :: int);
          hval = (\<lambda>(i, j, k). histo_get (histo v) (get_color_index i j k));
          ntot = (\<Sum>c \<leftarrow> cells v. hval c);
          r_sum = (\<Sum>(i, j, k) \<leftarrow> cells v.
                     of_int (hval (i, j, k)) * (of_int i + 1 / 2) * of_int mult :: rat);
          g_sum = (\<Sum>(i, j, k) \<leftarrow> cells v.
                     of_int (hval (i, j, k)) * (of_int j + 1 / 2) * of_int mult :: rat);
          b_sum = (\<Sum>(i, j, k) \<leftarrow> cells v.
                     of_int (hval (i, j, k)) * (of_int k + 1 / 2) * of_int mult :: rat)
      in if ntot \<noteq> 0
         then (py_int (r_sum / of_int ntot),
               py_int (g_sum / of_int ntot),
               py_int (b_sum / of_int ntot))
         else (py_int (of_int (mult * (r1 v + r2 v + 1)) / 2),
               py_int (of_int (mult * (g1 v + g2 v + 1)) / 2),
               py_int (of_int (mult * (b1 v + b2 v + 1)) / 2)))"

definition contains :: "VBox \<Rightarrow> pixel \<Rightarrow> bool" where
  "contains v pixel =
     (case pixel of (p0, p1, p2) \<Rightarrow>
        let rval = drop_bit RSHIFT p0;
            gval = drop_bit RSHIFT p1;
            bval = drop_bit RSHIFT p2
        in rval \<ge> r1 v \<and> rval \<le> r2 v \<and> gval \<ge> g1 v \<and> gval \<le> g2 v \<and>
           bval \<ge> b1 v \<and> bval \<le> b2 v)"

subsection \<open>Class PQueue\<close>

record 'a PQueue =
  sort_key_pq :: "'a \<Rightarrow> int"
  contents :: "'a list"
  sorted_pq :: bool

definition PQueue_init :: "('a \<Rightarrow> int) \<Rightarrow> 'a PQueue" where
  "PQueue_init f = \<lparr>sort_key_pq = f, contents = [], sorted_pq = False\<rparr>"

text \<open>\<^verbatim>\<open>list.sort(key=...)\<close> is a stable ascending sort, as \<^const>\<open>sort_key\<close> is.\<close>

definition pq_sort :: "'a PQueue \<Rightarrow> 'a PQueue" where
  "pq_sort q = q\<lparr>contents := sort_key (sort_key_pq q) (contents q), sorted_pq := True\<rparr>"

definition pq_push :: "'a PQueue \<Rightarrow> 'a \<Rightarrow> 'a PQueue" where
  "pq_push q x = q\<lparr>contents := contents q @ [x], sorted_pq := False\<rparr>"

text \<open>
  \<^verbatim>\<open>peek(index)\<close>: the index is optional; a negative index counts from the end, and an
  index out of range raises.
\<close>

definition pq_peek :: "'a PQueue \<Rightarrow> int option \<Rightarrow> error + ('a \<times> 'a PQueue)" where
  "pq_peek q index =
     (let q1 = (if \<not> sorted_pq q then pq_sort q else q);
          n = int (length (contents q1));
          i = (case index of None \<Rightarrow> n - 1 | Some i \<Rightarrow> i);
          j = (if i < 0 then n + i else i)
      in if 0 \<le> j \<and> j < n then Inr (contents q1 ! nat j, q1) else Inl IndexError)"

definition pq_pop :: "'a PQueue \<Rightarrow> error + ('a \<times> 'a PQueue)" where
  "pq_pop q =
     (let q1 = (if \<not> sorted_pq q then pq_sort q else q)
      in if contents q1 = [] then Inl IndexError
         else Inr (last (contents q1), q1\<lparr>contents := butlast (contents q1)\<rparr>))"

definition pq_size :: "'a PQueue \<Rightarrow> int" where
  "pq_size q = int (length (contents q))"

definition pq_map :: "'a PQueue \<Rightarrow> ('a \<Rightarrow> 'b) \<Rightarrow> 'b list" where
  "pq_map q f = map f (contents q)"

subsection \<open>MMCQ.vbox\_from\_pixels\<close>

text \<open>The body of the loop: the running minima and maxima of the reduced coordinates.\<close>

definition bounds_add ::
  "pixel \<Rightarrow> int \<times> int \<times> int \<times> int \<times> int \<times> int \<Rightarrow> int \<times> int \<times> int \<times> int \<times> int \<times> int" where
  "bounds_add pixel bnds =
     (case (pixel, bnds) of ((p0, p1, p2), (rmin, rmax, gmin, gmax, bmin, bmax)) \<Rightarrow>
        let rval = drop_bit RSHIFT p0;
            gval = drop_bit RSHIFT p1;
            bval = drop_bit RSHIFT p2
        in (min rval rmin, max rval rmax, min gval gmin, max gval gmax,
            min bval bmin, max bval bmax))"

definition vbox_from_pixels :: "pixel list \<Rightarrow> histo \<Rightarrow> VBox" where
  "vbox_from_pixels pixels h =
     (case fold bounds_add pixels (1000000, 0, 1000000, 0, 1000000, 0)
      of (rmin, rmax, gmin, gmax, bmin, bmax) \<Rightarrow>
        \<lparr>r1 = rmin, r2 = rmax, g1 = gmin, g2 = gmax, b1 = bmin, b2 = bmax, histo = h\<rparr>)"

subsection \<open>MMCQ.median\_cut\_apply\<close>

datatype axis = Red | Green | Blue

text \<open>The population of slice \<open>i\<close> along the cut axis: the two inner loops.\<close>

definition slice_sum :: "histo \<Rightarrow> VBox \<Rightarrow> axis \<Rightarrow> int \<Rightarrow> int" where
  "slice_sum h v a i =
     (case a of
        Red \<Rightarrow> (\<Sum>j \<leftarrow> [g1 v..g2 v]. \<Sum>k \<leftarrow> [b1 v..b2 v]. histo_get h (get_color_index i j k))
      | Green \<Rightarrow> (\<Sum>j \<leftarrow> [r1 v..r2 v]. \<Sum>k \<leftarrow> [b1 v..b2 v]. histo_get h (get_color_index j i k))
      | Blue \<Rightarrow> (\<Sum>j \<leftarrow> [r1 v..r2 v]. \<Sum>k \<leftarrow> [g1 v..g2 v]. histo_get h (get_color_index j k i)))"

definition dim1 :: "axis \<Rightarrow> VBox \<Rightarrow> int" where
  "dim1 a v = (case a of Red \<Rightarrow> r1 v | Green \<Rightarrow> g1 v | Blue \<Rightarrow> b1 v)"

definition dim2 :: "axis \<Rightarrow> VBox \<Rightarrow> int" where
  "dim2 a v = (case a of Red \<Rightarrow> r2 v | Green \<Rightarrow> g2 v | Blue \<Rightarrow> b2 v)"

definition set_dim1 :: "axis \<Rightarrow> int \<Rightarrow> VBox \<Rightarrow> VBox" where
  "set_dim1 a d v = (case a of Red \<Rightarrow> v\<lparr>r1 := d\<rparr> | Green \<Rightarrow> v\<lparr>g1 := d\<rparr> | Blue \<Rightarrow> v\<lparr>b1 := d\<rparr>)"

definition set_dim2 :: "axis \<Rightarrow> int \<Rightarrow> VBox \<Rightarrow> VBox" where
  "set_dim2 a d v = (case a of Red \<Rightarrow> v\<lparr>r2 := d\<rparr> | Green \<Rightarrow> v\<lparr>g2 := d\<rparr> | Blue \<Rightarrow> v\<lparr>b2 := d\<rparr>)"

text \<open>
  The outer loop of each branch keeps the running \<^verbatim>\<open>total\<close> (here \<open>tot\<close>) and fills the
  dict \<open>partialsum\<close>; \<open>partialsum_add\<close> is its body for the slice \<open>i\<close>.
\<close>

definition partialsum_add ::
  "histo \<Rightarrow> VBox \<Rightarrow> axis \<Rightarrow> int \<Rightarrow> int \<times> (int \<rightharpoonup> int) \<Rightarrow> int \<times> (int \<rightharpoonup> int)" where
  "partialsum_add h v a i st =
     (case st of (tot, partialsum) \<Rightarrow>
        let tot' = tot + slice_sum h v a i in (tot', partialsum(i \<mapsto> tot')))"

definition partial_sums :: "histo \<Rightarrow> VBox \<Rightarrow> axis \<Rightarrow> int \<times> (int \<rightharpoonup> int)" where
  "partial_sums h v a = fold (partialsum_add h v a) [dim1 a v..dim2 a v] (0, Map.empty)"

text \<open>\<^verbatim>\<open>while not partialsum.get(d2, False): d2 += 1\<close>\<close>

partial_function (option) skip_empty :: "(int \<rightharpoonup> int) \<Rightarrow> int \<Rightarrow> int option" where
  "skip_empty partialsum d2 =
     (if \<not> truthy (partialsum d2) then skip_empty partialsum (d2 + 1) else Some d2)"

declare skip_empty.simps [code]

text \<open>
  \<^verbatim>\<open>while not count2 and partialsum.get(d2-1, False): d2 -= 1; count2 = lookaheadsum.get(d2)\<close>
\<close>

partial_function (option) step_back ::
  "(int \<rightharpoonup> int) \<Rightarrow> (int \<rightharpoonup> int) \<Rightarrow> int \<Rightarrow> int option \<Rightarrow> int option" where
  "step_back partialsum lookaheadsum d2 count2 =
     (if \<not> truthy count2 \<and> truthy (partialsum (d2 - 1))
      then step_back partialsum lookaheadsum (d2 - 1) (lookaheadsum (d2 - 1))
      else Some d2)"

declare step_back.simps [code]

text \<open>
  The body of the cut loop at the slice \<open>i\<close> whose partial sum exceeds half of the total.
\<close>

definition cut_at ::
  "VBox \<Rightarrow> axis \<Rightarrow> (int \<rightharpoonup> int) \<Rightarrow> (int \<rightharpoonup> int) \<Rightarrow> int \<Rightarrow> (VBox option \<times> VBox option) outcome"
  where
  "cut_at v a partialsum lookaheadsum i =
     (let vbox1 = copy v;
          vbox2 = copy v;
          dim1_val = dim1 a v;
          dim2_val = dim2 a v;
          left = i - dim1_val;
          right = dim2_val - i;
          d2 = (if left \<le> right
                then min (dim2_val - 1) (py_int (of_int i + of_int right / 2))
                else max dim1_val (py_int (of_int i - 1 - of_int left / 2)))
      in case skip_empty partialsum d2 of
           None \<Rightarrow> None
         | Some d2' \<Rightarrow>
             (case step_back partialsum lookaheadsum d2' (lookaheadsum d2') of
                None \<Rightarrow> None
              | Some d2'' \<Rightarrow>
                  (let vbox1' = set_dim2 a d2'' vbox1;
                       vbox2' = set_dim1 a (dim2 a vbox1' + 1) vbox2
                   in Some (Inr (Some vbox1', Some vbox2')))))"

text \<open>
  \<^verbatim>\<open>for i in range(dim1_val, dim2_val+1): if partialsum[i] > (total / 2): ...\<close>
\<close>

fun cut_loop ::
  "VBox \<Rightarrow> axis \<Rightarrow> int \<Rightarrow> (int \<rightharpoonup> int) \<Rightarrow> (int \<rightharpoonup> int) \<Rightarrow> int list \<Rightarrow>
     (VBox option \<times> VBox option) outcome" where
  "cut_loop v a tot partialsum lookaheadsum [] = Some (Inr (None, None))"
| "cut_loop v a tot partialsum lookaheadsum (i # is) =
     (case partialsum i of
        None \<Rightarrow> Some (Inl KeyError)
      | Some d \<Rightarrow>
          if (of_int d :: rat) > of_int tot / 2
          then cut_at v a partialsum lookaheadsum i
          else cut_loop v a tot partialsum lookaheadsum is)"

definition do_cut_color :: "VBox \<Rightarrow> axis" where
  "do_cut_color v =
     (let rw = r2 v - r1 v + 1;
          gw = g2 v - g1 v + 1;
          bw = b2 v - b1 v + 1;
          maxw = max rw (max gw bw)
      in if maxw = rw then Red else if maxw = gw then Green else Blue)"

definition median_cut_apply :: "histo \<Rightarrow> VBox \<Rightarrow> (VBox option \<times> VBox option) outcome" where
  "median_cut_apply h v =
     (if count v = 0 then Some (Inr (None, None))
      else if count v = 1 then Some (Inr (Some (copy v), None))
      else
        (let a = do_cut_color v;
             (tot, partialsum) = partial_sums h v a;
             lookaheadsum = (\<lambda>i. map_option (\<lambda>d. tot - d) (partialsum i))
         in cut_loop v a tot partialsum lookaheadsum [dim1 a v..dim2 a v]))"

subsection \<open>MMCQ.quantize\<close>

text \<open>
  The inner function \<^verbatim>\<open>iter_\<close> (here \<open>iter\<close>); \<open>iter_loop\<close> is its \<^verbatim>\<open>while\<close> loop. The queue is
  mutated in place by the source and returned by the model.
\<close>

function iter_loop ::
  "histo \<Rightarrow> VBox PQueue \<Rightarrow> rat \<Rightarrow> int \<Rightarrow> int \<Rightarrow> VBox PQueue outcome" where
  "iter_loop h lh target n_color n_iter =
     (if n_iter < MAX_ITERATION then
        (case pq_pop lh of
           Inl e \<Rightarrow> Some (Inl e)
         | Inr (vbox, lh1) \<Rightarrow>
             if count vbox = 0
             then iter_loop h (pq_push lh1 vbox) target n_color (n_iter + 1)
             else
               (case median_cut_apply h vbox of
                  None \<Rightarrow> None
                | Some (Inl e) \<Rightarrow> Some (Inl e)
                | Some (Inr (None, vbox2)) \<Rightarrow> Some (Inl Vbox1Undefined)
                | Some (Inr (Some vbox1, None)) \<Rightarrow>
                    if of_int n_color \<ge> target then Some (Inr (pq_push lh1 vbox1))
                    else if n_iter > MAX_ITERATION then Some (Inr (pq_push lh1 vbox1))
                    else iter_loop h (pq_push lh1 vbox1) target n_color (n_iter + 1)
                | Some (Inr (Some vbox1, Some vbox2)) \<Rightarrow>
                    if of_int (n_color + 1) \<ge> target
                    then Some (Inr (pq_push (pq_push lh1 vbox1) vbox2))
                    else if n_iter > MAX_ITERATION
                    then Some (Inr (pq_push (pq_push lh1 vbox1) vbox2))
                    else iter_loop h (pq_push (pq_push lh1 vbox1) vbox2) target
                           (n_color + 1) (n_iter + 1)))
      else Some (Inr lh))"
  by pat_completeness auto
termination
  by (relation "measure (\<lambda>(h, lh, target, n_color, n_iter). nat (MAX_ITERATION - n_iter))")
     auto

definition iter :: "histo \<Rightarrow> VBox PQueue \<Rightarrow> rat \<Rightarrow> VBox PQueue outcome" where
  "iter h lh target = iter_loop h lh target 1 0"

text \<open>\<^verbatim>\<open>while pq.size(): pq2.push(pq.pop())\<close>\<close>

function transfer :: "'a PQueue \<Rightarrow> 'a PQueue \<Rightarrow> error + 'a PQueue" where
  "transfer pq pq2 =
     (if pq_size pq \<noteq> 0
      then (case pq_pop pq of
              Inl e \<Rightarrow> Inl e
            | Inr (x, pq') \<Rightarrow> transfer pq' (pq_push pq2 x))
      else Inr pq2)"
  by pat_completeness auto
termination
  by (relation "measure (\<lambda>(pq, pq2). length (contents pq))")
     (auto simp: pq_pop_def pq_sort_def pq_size_def Let_def split: if_splits)

subsection \<open>Class CMap\<close>

record cmap_entry =
  vbox :: VBox
  color :: "int \<times> int \<times> int"

record CMap =
  vboxes :: "cmap_entry PQueue"

definition CMap_init :: CMap where
  "CMap_init = \<lparr>vboxes = PQueue_init (\<lambda>x. count (vbox x) * volume (vbox x))\<rparr>"

definition palette :: "CMap \<Rightarrow> (int \<times> int \<times> int) list" where
  "palette cm = pq_map (vboxes cm) color"

text \<open>
  \<^verbatim>\<open>count / float(total)\<close> raises when \<open>total\<close> is zero and the map has an entry to
  divide for.
\<close>

definition palette_distribution :: "CMap \<Rightarrow> error + ((int \<times> int \<times> int) \<times> rat) list" where
  "palette_distribution cm =
     (let tot = sum_list (pq_map (vboxes cm) (\<lambda>x. count (vbox x)))
      in if tot = 0 \<and> contents (vboxes cm) \<noteq> [] then Inl ZeroDivisionError
         else Inr (pq_map (vboxes cm) (\<lambda>x. (color x, of_int (count (vbox x)) / of_int tot))))"

definition cmap_push :: "CMap \<Rightarrow> VBox \<Rightarrow> CMap" where
  "cmap_push cm v = cm\<lparr>vboxes := pq_push (vboxes cm) \<lparr>vbox = v, color = avg v\<rparr>\<rparr>"

definition cmap_size :: "CMap \<Rightarrow> int" where
  "cmap_size cm = pq_size (vboxes cm)"

text \<open>
  \<^verbatim>\<open>nearest\<close> and \<^verbatim>\<open>map\<close> read the queue with \<^verbatim>\<open>peek(i)\<close>, which sorts it: both
  return the colour together with the colour map as the call leaves it.

  The distances \<^verbatim>\<open>d1\<close> and \<^verbatim>\<open>d2\<close> are square roots of integer sums of squares, used in
  the comparison \<^verbatim>\<open>d2 < d1\<close> only and never returned. The model keeps the sums: the root
  is strictly increasing, so that the roots compare as the sums do.
\<close>

fun nearest_loop ::
  "cmap_entry PQueue \<Rightarrow> pixel \<Rightarrow> int option \<Rightarrow> (int \<times> int \<times> int) option \<Rightarrow> int list \<Rightarrow>
     error + ((int \<times> int \<times> int) option \<times> cmap_entry PQueue)" where
  "nearest_loop q c d1 p_color [] = Inr (p_color, q)"
| "nearest_loop q c d1 p_color (i # is) =
     (case pq_peek q (Some i) of
        Inl e \<Rightarrow> Inl e
      | Inr (x, q') \<Rightarrow>
          (case (c, color x) of ((c0, c1, c2), (v0, v1, v2)) \<Rightarrow>
             let d2 = (c0 - v0)\<^sup>2 + (c1 - v1)\<^sup>2 + (c2 - v2)\<^sup>2
             in if (case d1 of None \<Rightarrow> True | Some d \<Rightarrow> d2 < d)
                then nearest_loop q' c (Some d2) (Some (color x)) is
                else nearest_loop q' c d1 p_color is))"

definition nearest :: "CMap \<Rightarrow> pixel \<Rightarrow> error + ((int \<times> int \<times> int) option \<times> CMap)" where
  "nearest cm c =
     (case nearest_loop (vboxes cm) c None None [0..cmap_size cm - 1] of
        Inl e \<Rightarrow> Inl e
      | Inr (p_color, q) \<Rightarrow> Inr (p_color, cm\<lparr>vboxes := q\<rparr>))"

fun map_loop :: "CMap \<Rightarrow> pixel \<Rightarrow> int list \<Rightarrow> error + ((int \<times> int \<times> int) option \<times> CMap)" where
  "map_loop cm c [] = nearest cm c"
| "map_loop cm c (i # is) =
     (case pq_peek (vboxes cm) (Some i) of
        Inl e \<Rightarrow> Inl e
      | Inr (x, q') \<Rightarrow>
          if contains (vbox x) c then Inr (Some (color x), cm\<lparr>vboxes := q'\<rparr>)
          else map_loop (cm\<lparr>vboxes := q'\<rparr>) c is)"

definition cmap_map :: "CMap \<Rightarrow> pixel \<Rightarrow> error + ((int \<times> int \<times> int) option \<times> CMap)" where
  "cmap_map cm c = map_loop cm c [0..cmap_size cm - 1]"

subsection \<open>MMCQ.quantize, continued\<close>

text \<open>\<^verbatim>\<open>while pq2.size(): cmap.push(pq2.pop())\<close>\<close>

function drain :: "VBox PQueue \<Rightarrow> CMap \<Rightarrow> error + CMap" where
  "drain pq2 cm =
     (if pq_size pq2 \<noteq> 0
      then (case pq_pop pq2 of
              Inl e \<Rightarrow> Inl e
            | Inr (x, pq2') \<Rightarrow> drain pq2' (cmap_push cm x))
      else Inr cm)"
  by pat_completeness auto
termination
  by (relation "measure (\<lambda>(pq2, cm). length (contents pq2))")
     (auto simp: pq_pop_def pq_sort_def pq_size_def Let_def split: if_splits)

text \<open>
  The part of \<^verbatim>\<open>quantize\<close> after the histogram and the first box: phase 1, the
  re-sort by count times volume, phase 2 and the drain into the colour map.
\<close>

definition quantize_phases :: "histo \<Rightarrow> VBox \<Rightarrow> int \<Rightarrow> CMap outcome" where
  "quantize_phases h vbox0 max_color =
     (let pq = pq_push (PQueue_init count) vbox0
      in case iter h pq (FRACT_BY_POPULATIONS * of_int max_color) of
           None \<Rightarrow> None
         | Some (Inl e) \<Rightarrow> Some (Inl e)
         | Some (Inr pq') \<Rightarrow>
             (case transfer pq' (PQueue_init (\<lambda>x. count x * volume x)) of
                Inl e \<Rightarrow> Some (Inl e)
              | Inr pq2 \<Rightarrow>
                  (case iter h pq2 (of_int (max_color - pq_size pq2)) of
                     None \<Rightarrow> None
                   | Some (Inl e) \<Rightarrow> Some (Inl e)
                   | Some (Inr pq2') \<Rightarrow>
                       (case drain pq2' CMap_init of
                          Inl e \<Rightarrow> Some (Inl e)
                        | Inr cm \<Rightarrow> Some (Inr cm)))))"

text \<open>
  The test \<^verbatim>\<open>if len(histo) <= max_color: pass\<close> of the source has an empty body and no
  counterpart here.
\<close>

definition quantize :: "pixel list \<Rightarrow> int \<Rightarrow> CMap outcome" where
  "quantize pixels max_color =
     (if pixels = [] then Some (Inl EmptyInput)
      else if max_color < 2 \<or> max_color > 256 then Some (Inl InvalidArgument)
      else
        (let h = get_histo pixels;
             vbox0 = vbox_from_pixels pixels h
         in quantize_phases h vbox0 max_color))"

subsection \<open>Class ColorThief: get\_palette\<close>

definition white_threshold :: int where "white_threshold = 240"
definition black_threshold :: int where "black_threshold = 15"
definition alpha_threshold :: int where "alpha_threshold = 100"

definition is_white :: "int \<Rightarrow> int \<Rightarrow> int \<Rightarrow> bool" where
  "is_white r g b = (r > white_threshold \<and> g > white_threshold \<and> b > white_threshold)"

definition is_black :: "int \<Rightarrow> int \<Rightarrow> int \<Rightarrow> bool" where
  "is_black r g b = (r < black_threshold \<and> g < black_threshold \<and> b < black_threshold)"

text \<open>
  The object after construction from a raw RGBA pixel list (decoding an image with PIL is
  outside the model: it only fills \<^verbatim>\<open>self.pixels\<close>).
\<close>

record ColorThief =
  ct_pixels :: "(int \<times> int \<times> int \<times> int) list"
  ct_cmap :: "CMap option"
  default_color :: "(int \<times> int \<times> int) option"


text \<open>\<^verbatim>\<open>range(0, pixel_count, quality)\<close>\<close>

definition range_step :: "nat \<Rightarrow> int \<Rightarrow> error + nat list" where
  "range_step n step =
     (if step = 0 then Inl ValueError
      else if step < 0 then Inr []
      else Inr (filter (\<lambda>i. int i mod step = 0) [0..<n]))"

text \<open>The body of the filtering loop: what one pixel appends to \<^verbatim>\<open>valid_pixels\<close>.\<close>

definition keep_pixel :: "bool \<Rightarrow> bool \<Rightarrow> int \<times> int \<times> int \<times> int \<Rightarrow> pixel list" where
  "keep_pixel no_white no_black p =
     (case p of (r, g, b, a) \<Rightarrow>
        if a \<ge> alpha_threshold then
          (let is_w = is_white r g b; is_b = is_black r g b
           in if (no_white \<and> no_black) \<and> \<not> (is_w \<or> is_b) then [(r, g, b)]
              else if no_black \<and> \<not> is_b then [(r, g, b)]
              else if no_white \<and> \<not> is_w then [(r, g, b)]
              else if \<not> no_white \<and> \<not> no_black then [(r, g, b)]
              else [])
        else [])"

definition valid_pixels :: "ColorThief \<Rightarrow> int \<Rightarrow> bool \<Rightarrow> bool \<Rightarrow> error + pixel list" where
  "valid_pixels ct quality no_white no_black =
     (case range_step (length (ct_pixels ct)) quality of
        Inl e \<Rightarrow> Inl e
      | Inr idxs \<Rightarrow> Inr (concat (map (\<lambda>i. keep_pixel no_white no_black (ct_pixels ct ! i)) idxs)))"


text \<open>The six bounds of a region, for statements about them.\<close>

definition bounds :: "VBox \<Rightarrow> int \<times> int \<times> int \<times> int \<times> int \<times> int" where
  "bounds v = (r1 v, r2 v, g1 v, g2 v, b1 v, b2 v)"

text \<open>The number of regions of a list that contain a pixel.\<close>

definition holders :: "pixel \<Rightarrow> VBox list \<Rightarrow> nat" where
  "holders p vs = length (filter (\<lambda>v. contains v p) vs)"

text \<open>
  The queue as \<^verbatim>\<open>peek\<close> and \<^verbatim>\<open>pop\<close> see it after their first two lines, and the
  consistency of the flag \<^verbatim>\<open>_sorted\<close> with the contents.
\<close>

definition ensure_sorted :: "'a PQueue \<Rightarrow> 'a PQueue" where
  "ensure_sorted q = (if \<not> sorted_pq q then pq_sort q else q)"

definition pq_ordered :: "'a PQueue \<Rightarrow> bool" where
  "pq_ordered q = (sorted_pq q \<longrightarrow> sorted (map (sort_key_pq q) (contents q)))"

text \<open>The score of a palette entry, as \<^verbatim>\<open>CMap.__init__\<close> gives it to the queue.\<close>

definition entry_key :: "cmap_entry \<Rightarrow> int" where
  "entry_key x = count (vbox x) * volume (vbox x)"

subsection \<open>MMCQ.quantize over the library sort\<close>

text \<open>
  The source calls one library routine whose result is specified rather than written out:
  \<^verbatim>\<open>self.contents.sort(key=self.sort_key)\<close> in \<^verbatim>\<open>PQueue.sort\<close>, which \<^verbatim>\<open>peek\<close> and \<^verbatim>\<open>pop\<close>
  call on a queue that is not marked sorted. The definitions of this subsection are
  \<^verbatim>\<open>PQueue.sort\<close>, \<^verbatim>\<open>peek\<close>, \<^verbatim>\<open>pop\<close>, \<^verbatim>\<open>iter_\<close>, the two draining loops and \<^verbatim>\<open>quantize\<close> once
  more, line by line as above, with that routine as the parameter \<open>srt\<close>. With
  \<^const>\<open>sort_key\<close> for \<open>srt\<close> they are the definitions above.
\<close>


text \<open>\<^verbatim>\<open>PQueue.sort\<close>, \<^verbatim>\<open>PQueue.pop\<close> and \<^verbatim>\<open>PQueue.peek\<close> over the sort \<open>srt\<close>.\<close>

definition pq_sort_with :: "(('a \<Rightarrow> int) \<Rightarrow> 'a list \<Rightarrow> 'a list) \<Rightarrow> 'a PQueue \<Rightarrow> 'a PQueue" where
  "pq_sort_with srt q = q\<lparr>contents := srt (sort_key_pq q) (contents q), sorted_pq := True\<rparr>"

definition pq_pop_with ::
  "(('a \<Rightarrow> int) \<Rightarrow> 'a list \<Rightarrow> 'a list) \<Rightarrow> 'a PQueue \<Rightarrow> error + ('a \<times> 'a PQueue)" where
  "pq_pop_with srt q =
     (let q1 = (if \<not> sorted_pq q then pq_sort_with srt q else q)
      in if contents q1 = [] then Inl IndexError
         else Inr (last (contents q1), q1\<lparr>contents := butlast (contents q1)\<rparr>))"


text \<open>The inner function \<^verbatim>\<open>iter_\<close> of \<^verbatim>\<open>quantize\<close> over the sort \<open>srt\<close>.\<close>

function iter_loop_with ::
  "((VBox \<Rightarrow> int) \<Rightarrow> VBox list \<Rightarrow> VBox list) \<Rightarrow>
     histo \<Rightarrow> VBox PQueue \<Rightarrow> rat \<Rightarrow> int \<Rightarrow> int \<Rightarrow> VBox PQueue outcome" where
  "iter_loop_with srt h lh target n_color n_iter =
     (if n_iter < MAX_ITERATION then
        (case pq_pop_with srt lh of
           Inl e \<Rightarrow> Some (Inl e)
         | Inr (vb, lh1) \<Rightarrow>
             if count vb = 0
             then iter_loop_with srt h (pq_push lh1 vb) target n_color (n_iter + 1)
             else
               (case median_cut_apply h vb of
                  None \<Rightarrow> None
                | Some (Inl e) \<Rightarrow> Some (Inl e)
                | Some (Inr (None, vb2)) \<Rightarrow> Some (Inl Vbox1Undefined)
                | Some (Inr (Some vb1, None)) \<Rightarrow>
                    if of_int n_color \<ge> target then Some (Inr (pq_push lh1 vb1))
                    else if n_iter > MAX_ITERATION then Some (Inr (pq_push lh1 vb1))
                    else iter_loop_with srt h (pq_push lh1 vb1) target n_color (n_iter + 1)
                | Some (Inr (Some vb1, Some vb2)) \<Rightarrow>
                    if of_int (n_color + 1) \<ge> target
                    then Some (Inr (pq_push (pq_push lh1 vb1) vb2))
                    else if n_iter > MAX_ITERATION
                    then Some (Inr (pq_push (pq_push lh1 vb1) vb2))
                    else iter_loop_with srt h (pq_push (pq_push lh1 vb1) vb2) target
                           (n_color + 1) (n_iter + 1)))
      else Some (Inr lh))"
  by pat_completeness auto
termination
  by (relation "measure (\<lambda>(srt, h, lh, target, n_color, n_iter). nat (MAX_ITERATION - n_iter))")
     auto

text \<open>
  The two loops \<^verbatim>\<open>while pq.size(): pq2.push(pq.pop())\<close> and
  \<^verbatim>\<open>while pq2.size(): cmap.push(pq2.pop())\<close> over the sort \<open>srt\<close>. Nothing is assumed of
  \<open>srt\<close>, so that the loops are not known to end: not returning is the value \<open>None\<close>.
\<close>

partial_function (option) transfer_with ::
  "(('a \<Rightarrow> int) \<Rightarrow> 'a list \<Rightarrow> 'a list) \<Rightarrow> 'a PQueue \<Rightarrow> 'a PQueue \<Rightarrow> 'a PQueue outcome" where
  "transfer_with srt pq pq2 =
     (if pq_size pq \<noteq> 0
      then (case pq_pop_with srt pq of
              Inl e \<Rightarrow> Some (Inl e)
            | Inr (x, pq') \<Rightarrow> transfer_with srt pq' (pq_push pq2 x))
      else Some (Inr pq2))"

declare transfer_with.simps [code]

partial_function (option) drain_with ::
  "((VBox \<Rightarrow> int) \<Rightarrow> VBox list \<Rightarrow> VBox list) \<Rightarrow> VBox PQueue \<Rightarrow> CMap \<Rightarrow> CMap outcome" where
  "drain_with srt pq2 cm =
     (if pq_size pq2 \<noteq> 0
      then (case pq_pop_with srt pq2 of
              Inl e \<Rightarrow> Some (Inl e)
            | Inr (x, pq2') \<Rightarrow> drain_with srt pq2' (cmap_push cm x))
      else Some (Inr cm))"

declare drain_with.simps [code]

text \<open>\<^verbatim>\<open>MMCQ.quantize\<close> over the sort \<open>srt\<close>.\<close>

definition quantize_phases_with ::
  "((VBox \<Rightarrow> int) \<Rightarrow> VBox list \<Rightarrow> VBox list) \<Rightarrow> histo \<Rightarrow> VBox \<Rightarrow> int \<Rightarrow> CMap outcome" where
  "quantize_phases_with srt h vbox0 max_color =
     (let pq = pq_push (PQueue_init count) vbox0
      in case iter_loop_with srt h pq (FRACT_BY_POPULATIONS * of_int max_color) 1 0 of
           None \<Rightarrow> None
         | Some (Inl e) \<Rightarrow> Some (Inl e)
         | Some (Inr pq') \<Rightarrow>
             (case transfer_with srt pq' (PQueue_init (\<lambda>x. count x * volume x)) of
                None \<Rightarrow> None
              | Some (Inl e) \<Rightarrow> Some (Inl e)
              | Some (Inr pq2) \<Rightarrow>
                  (case iter_loop_with srt h pq2 (of_int (max_color - pq_size pq2)) 1 0 of
                     None \<Rightarrow> None
                   | Some (Inl e) \<Rightarrow> Some (Inl e)
                   | Some (Inr pq2') \<Rightarrow> drain_with srt pq2' CMap_init)))"

definition quantize_with ::
  "((VBox \<Rightarrow> int) \<Rightarrow> VBox list \<Rightarrow> VBox list) \<Rightarrow> pixel list \<Rightarrow> int \<Rightarrow> CMap outcome" where
  "quantize_with srt pixels max_color =
     (if pixels = [] then Some (Inl EmptyInput)
      else if max_color < 2 \<or> max_color > 256 then Some (Inl InvalidArgument)
      else
        (let h = get_histo pixels;
             vbox0 = vbox_from_pixels pixels h
         in quantize_phases_with srt h vbox0 max_color))"

section \<open>Properties\<close>

subsection \<open>Histogram and first box of a one-colour image\<close>

lemma fold_histo_add_replicate:
  "fold histo_add (replicate n p) h =
     (if n = 0 then h
      else (case p of (p0, p1, p2) \<Rightarrow>
        h(get_color_index (drop_bit RSHIFT p0) (drop_bit RSHIFT p1) (drop_bit RSHIFT p2) \<mapsto>
          histo_get h
            (get_color_index (drop_bit RSHIFT p0) (drop_bit RSHIFT p1) (drop_bit RSHIFT p2)) +
          int n)))"
proof (induction n arbitrary: h)
  case 0
  then show ?case by simp
next
  case (Suc n)
  obtain p0 p1 p2 where p: "p = (p0, p1, p2)" by (cases p) auto
  let ?i = "get_color_index (drop_bit RSHIFT p0) (drop_bit RSHIFT p1) (drop_bit RSHIFT p2)"
  have "fold histo_add (replicate (Suc n) p) h = fold histo_add (replicate n p) (histo_add p h)"
    by (simp del: fold_replicate)
  also have "\<dots> = (if n = 0 then histo_add p h
      else (case p of (p0, p1, p2) \<Rightarrow>
        (histo_add p h)(get_color_index (drop_bit RSHIFT p0) (drop_bit RSHIFT p1)
             (drop_bit RSHIFT p2) \<mapsto>
          histo_get (histo_add p h)
            (get_color_index (drop_bit RSHIFT p0) (drop_bit RSHIFT p1) (drop_bit RSHIFT p2)) +
          int n)))"
    by (rule Suc.IH)
  also have "\<dots> = h(?i \<mapsto> histo_get h ?i + int (Suc n))"
    by (simp add: p histo_add_def histo_get_def Let_def add.assoc)
  finally have "fold histo_add (replicate (Suc n) p) h = h(?i \<mapsto> histo_get h ?i + int (Suc n))" .
  then show ?case
    unfolding p by (simp only: prod.case nat.distinct if_False)
qed

lemma fold_bounds_add_replicate:
  "fold bounds_add (replicate n p) bnds = (if n = 0 then bnds else bounds_add p bnds)"
proof (induction n arbitrary: bnds)
  case 0
  then show ?case by simp
next
  case (Suc n)
  obtain p0 p1 p2 where p: "p = (p0, p1, p2)" by (cases p) auto
  obtain a b c d e f where b: "bnds = (a, b, c, d, e, f)" by (cases bnds) auto
  have "fold bounds_add (replicate (Suc n) p) bnds =
        fold bounds_add (replicate n p) (bounds_add p bnds)"
    by (simp del: fold_replicate)
  also have "\<dots> = (if n = 0 then bounds_add p bnds else bounds_add p (bounds_add p bnds))"
    by (rule Suc.IH)
  also have "\<dots> = bounds_add p bnds"
    by (simp add: p b bounds_add_def Let_def)
  finally have "fold bounds_add (replicate (Suc n) p) bnds = bounds_add p bnds" .
  then show ?case
    by (simp only: nat.distinct if_False)
qed

lemma get_histo_100_red: "get_histo (replicate 100 (255, 0, 0)) = [31744 \<mapsto> 100]"
  unfolding get_histo_def fold_histo_add_replicate
  by (simp add: histo_get_def get_color_index_def RSHIFT_def SIGBITS_def drop_bit_eq_div
      push_bit_eq_mult)

lemma vbox_from_100_red:
  "vbox_from_pixels (replicate 100 (255, 0, 0)) h =
     \<lparr>r1 = 31, r2 = 31, g1 = 0, g2 = 0, b1 = 0, b2 = 0, histo = h\<rparr>"
  unfolding vbox_from_pixels_def fold_bounds_add_replicate
  by (simp add: bounds_add_def RSHIFT_def SIGBITS_def drop_bit_eq_div)

lemma quantize_100_red:
  "quantize (replicate 100 (255, 0, 0)) 5 =
     quantize_phases [31744 \<mapsto> 100]
       \<lparr>r1 = 31, r2 = 31, g1 = 0, g2 = 0, b1 = 0, b2 = 0, histo = [31744 \<mapsto> 100]\<rparr> 5"
  by (simp add: quantize_def get_histo_100_red vbox_from_100_red Let_def)

lemma phases_100_red:
  "map_option (map_sum id (\<lambda>cm. (palette cm, palette_distribution cm)))
     (quantize_phases [31744 \<mapsto> 100]
        \<lparr>r1 = 31, r2 = 31, g1 = 0, g2 = 0, b1 = 0, b2 = 0, histo = [31744 \<mapsto> 100]\<rparr> 5) =
   Some (Inr ([(252, 4, 4), (256, 4, 4), (256, 4, 4), (256, 4, 4), (256, 4, 4)],
              Inr [((252, 4, 4), 1), ((256, 4, 4), 0), ((256, 4, 4), 0), ((256, 4, 4), 0),
                   ((256, 4, 4), 0)]))"
  by code_simp

subsection \<open>Palette size\<close>

text \<open>
  Claim C1: for a non-empty pixel sequence and a target \<open>N\<close> in \<open>[2, 256]\<close> the palette has
  at least 1 and at most \<open>N\<close> entries. The code exceeds the target: phase 2 starts its
  colour counter at 1 again and tests it against \<open>N - size\<close> only after a split, so for
  three pixels in three different buckets and \<open>N = 2\<close> the palette has three entries, each
  the centroid of a populated one-bucket region.
\<close>

theorem quantize_palette_exceeds_max_color:
  "map_option (map_sum id palette) (quantize [(0, 0, 0), (8, 0, 0), (16, 0, 0)] 2) =
     Some (Inr [(12, 4, 4), (4, 4, 4), (20, 4, 4)])"
  by code_simp

subsection \<open>The one-colour scenario\<close>

text \<open>
  Claim C2: for 100 pixels all equal to \<open>(255, 0, 0)\<close> and \<open>N = 5\<close> the histogram has
  exactly one bucket, the palette has exactly one entry and the distribution is the
  single fraction 1. The histogram has one bucket indeed, but the splitter cuts the
  one-bucket region into itself and an empty region with \<open>r1 = r2 + 1\<close> four times over:
  the palette has five entries, four of them \<open>(256, 4, 4)\<close> with fraction 0.
\<close>

theorem quantize_one_colour_scenario:
  "dom (get_histo (replicate 100 (255, 0, 0))) = {31744} \<and>
   map_option (map_sum id (\<lambda>cm. (palette cm, palette_distribution cm)))
     (quantize (replicate 100 (255, 0, 0)) 5) =
   Some (Inr ([(252, 4, 4), (256, 4, 4), (256, 4, 4), (256, 4, 4), (256, 4, 4)],
              Inr [((252, 4, 4), 1), ((256, 4, 4), 0), ((256, 4, 4), 0), ((256, 4, 4), 0),
                   ((256, 4, 4), 0)]))"
  by (simp only: quantize_100_red phases_100_red get_histo_100_red) simp

subsection \<open>Average colours\<close>

text \<open>
  Claim C3: every channel of the average colour of a region reachable during a quantize
  call lies in \<open>[0, 255]\<close>. For two pixels \<open>(255, 0, 0)\<close> and \<open>N = 2\<close> the retained regions
  are the populated bucket and two empty regions with red bounds \<open>[32, 31]\<close>, whose
  midpoint formula gives the red channel \<open>8 * (32 + 31 + 1) / 2 = 256\<close>.
\<close>

theorem quantize_avg_channel_256:
  "map_option (map_sum id (\<lambda>cm. map (\<lambda>e. (count (vbox e), avg (vbox e), color e))
       (contents (vboxes cm))))
     (quantize [(255, 0, 0), (255, 0, 0)] 2) =
   Some (Inr [(2, (252, 4, 4), (252, 4, 4)), (0, (256, 4, 4), (256, 4, 4)),
              (0, (256, 4, 4), (256, 4, 4))])"
  by code_simp

subsection \<open>Bounds of the regions\<close>

text \<open>
  Claim C4: every region constructed during a quantize call has \<open>r1 \<le> r2\<close>, \<open>g1 \<le> g2\<close>,
  \<open>b1 \<le> b2\<close> and all bounds in \<open>[0, 31]\<close>. For two pixels \<open>(255, 0, 0)\<close> the first split
  already returns the second child with \<open>r1 = 32\<close> and \<open>r2 = 31\<close>, and two such regions are
  retained by \<open>quantize\<close> with \<open>N = 2\<close>.
\<close>

theorem median_cut_apply_inverted_child:
  "(let px = [(255, 0, 0), (255, 0, 0)]; h = get_histo px; v = vbox_from_pixels px h
    in map_option (map_sum id (map_prod (map_option bounds) (map_option bounds)))
         (median_cut_apply h v)) =
     Some (Inr (Some (31, 31, 0, 0, 0, 0), Some (32, 31, 0, 0, 0, 0))) \<and>
   map_option (map_sum id (\<lambda>cm. map (\<lambda>e. bounds (vbox e)) (contents (vboxes cm))))
     (quantize [(255, 0, 0), (255, 0, 0)] 2) =
     Some (Inr [(31, 31, 0, 0, 0, 0), (32, 31, 0, 0, 0, 0), (32, 31, 0, 0, 0, 0)])"
  by code_simp

subsection \<open>The refinement loop: case analysis and invariants\<close>

declare iter_loop.simps [simp del] transfer.simps [simp del] drain.simps [simp del]

lemma iter_loop_returnsE:
  assumes "iter_loop h lh t nc ni = Some (Inr lh')"
  obtains
    (exit) "\<not> ni < MAX_ITERATION" "lh' = lh"
  | (zero) v q1 where "ni < MAX_ITERATION" "pq_pop lh = Inr (v, q1)" "count v = 0"
      "iter_loop h (pq_push q1 v) t nc (ni + 1) = Some (Inr lh')"
  | (one_ret) v q1 v1 where "ni < MAX_ITERATION" "pq_pop lh = Inr (v, q1)" "count v \<noteq> 0"
      "median_cut_apply h v = Some (Inr (Some v1, None))" "lh' = pq_push q1 v1"
  | (one_rec) v q1 v1 where "ni < MAX_ITERATION" "pq_pop lh = Inr (v, q1)" "count v \<noteq> 0"
      "median_cut_apply h v = Some (Inr (Some v1, None))" "\<not> of_int nc \<ge> t"
      "iter_loop h (pq_push q1 v1) t nc (ni + 1) = Some (Inr lh')"
  | (two_ret) v q1 v1 v2 where "ni < MAX_ITERATION" "pq_pop lh = Inr (v, q1)" "count v \<noteq> 0"
      "median_cut_apply h v = Some (Inr (Some v1, Some v2))" "of_int (nc + 1) \<ge> t"
      "lh' = pq_push (pq_push q1 v1) v2"
  | (two_rec) v q1 v1 v2 where "ni < MAX_ITERATION" "pq_pop lh = Inr (v, q1)" "count v \<noteq> 0"
      "median_cut_apply h v = Some (Inr (Some v1, Some v2))" "\<not> of_int (nc + 1) \<ge> t"
      "iter_loop h (pq_push (pq_push q1 v1) v2) t (nc + 1) (ni + 1) = Some (Inr lh')"
proof (cases "ni < MAX_ITERATION")
  case False
  with assms have "lh' = lh" by (subst (asm) iter_loop.simps) simp
  with False show ?thesis by (rule exit)
next
  case lt: True
  show ?thesis
  proof (cases "pq_pop lh")
    case (Inl e)
    with assms lt show ?thesis by (subst (asm) iter_loop.simps) simp
  next
    case (Inr p)
    obtain v q1 where p: "p = (v, q1)" by (cases p) auto
    note pop = Inr[unfolded p]
    show ?thesis
    proof (cases "count v = 0")
      case True
      with assms lt pop have "iter_loop h (pq_push q1 v) t nc (ni + 1) = Some (Inr lh')"
        by (subst (asm) iter_loop.simps) simp
      with lt pop True show ?thesis by (rule zero)
    next
      case nz: False
      show ?thesis
      proof (cases "median_cut_apply h v")
        case None
        with assms lt pop nz show ?thesis by (subst (asm) iter_loop.simps) simp
      next
        case (Some r)
        show ?thesis
        proof (cases r)
          case (Inl e)
          with Some assms lt pop nz show ?thesis by (subst (asm) iter_loop.simps) simp
        next
          case (Inr pr)
          obtain a b where pr: "pr = (a, b)" by (cases pr) auto
          note mca = Some[unfolded Inr pr]
          show ?thesis
          proof (cases a)
            case None
            with mca assms lt pop nz show ?thesis by (subst (asm) iter_loop.simps) simp
          next
            case sa: (Some v1)
            show ?thesis
            proof (cases b)
              case None
              note m1 = mca[unfolded sa None]
              from assms lt pop nz m1 have
                "(if of_int nc \<ge> t then Some (Inr (pq_push q1 v1))
                  else if ni > MAX_ITERATION then Some (Inr (pq_push q1 v1))
                  else iter_loop h (pq_push q1 v1) t nc (ni + 1)) = Some (Inr lh')"
                by (subst (asm) iter_loop.simps) simp
              with lt consider "lh' = pq_push q1 v1"
                | "\<not> of_int nc \<ge> t" "iter_loop h (pq_push q1 v1) t nc (ni + 1) = Some (Inr lh')"
                by (auto split: if_splits)
              then show ?thesis
              proof cases
                case 1
                with lt pop nz m1 show ?thesis by (intro one_ret)
              next
                case 2
                with lt pop nz m1 show ?thesis by (intro one_rec)
              qed
            next
              case (Some v2)
              note m2 = mca[unfolded sa Some]
              from assms lt pop nz m2 have
                "(if of_int (nc + 1) \<ge> t then Some (Inr (pq_push (pq_push q1 v1) v2))
                  else if ni > MAX_ITERATION then Some (Inr (pq_push (pq_push q1 v1) v2))
                  else iter_loop h (pq_push (pq_push q1 v1) v2) t (nc + 1) (ni + 1)) = Some (Inr lh')"
                by (subst (asm) iter_loop.simps) simp
              with lt consider "of_int (nc + 1) \<ge> t" "lh' = pq_push (pq_push q1 v1) v2"
                | "\<not> of_int (nc + 1) \<ge> t"
                  "iter_loop h (pq_push (pq_push q1 v1) v2) t (nc + 1) (ni + 1) = Some (Inr lh')"
                by (auto split: if_splits)
              then show ?thesis
              proof cases
                case 1
                with lt pop nz m2 show ?thesis by (intro two_ret)
              next
                case 2
                with lt pop nz m2 show ?thesis by (intro two_rec)
              qed
            qed
          qed
        qed
      qed
    qed
  qed
qed

lemma iter_loop_invariant:
  assumes res: "iter_loop h lh t nc ni = Some (Inr lh')"
    and init: "P lh"
    and zero: "\<And>q v q1. P q \<Longrightarrow> pq_pop q = Inr (v, q1) \<Longrightarrow> count v = 0 \<Longrightarrow> P (pq_push q1 v)"
    and one: "\<And>q v q1 v1. P q \<Longrightarrow> pq_pop q = Inr (v, q1) \<Longrightarrow> count v \<noteq> 0 \<Longrightarrow>
                median_cut_apply h v = Some (Inr (Some v1, None)) \<Longrightarrow> P (pq_push q1 v1)"
    and two: "\<And>q v q1 v1 v2. P q \<Longrightarrow> pq_pop q = Inr (v, q1) \<Longrightarrow> count v \<noteq> 0 \<Longrightarrow>
                median_cut_apply h v = Some (Inr (Some v1, Some v2)) \<Longrightarrow>
                P (pq_push (pq_push q1 v1) v2)"
  shows "P lh'"
  using res init
proof (induction "nat (MAX_ITERATION - ni)" arbitrary: lh nc ni rule: less_induct)
  case less
  from less.prems(1) show ?case
  proof (cases rule: iter_loop_returnsE)
    case exit
    with less.prems show ?thesis by simp
  next
    case (zero v q1)
    have "nat (MAX_ITERATION - (ni + 1)) < nat (MAX_ITERATION - ni)" using zero(1) by simp
    from less.hyps[OF this zero(4)] assms(3)[OF less.prems(2) zero(2,3)] show ?thesis .
  next
    case (one_ret v q1 v1)
    with one[OF less.prems(2)] show ?thesis by simp
  next
    case (one_rec v q1 v1)
    have "nat (MAX_ITERATION - (ni + 1)) < nat (MAX_ITERATION - ni)" using one_rec(1) by simp
    from less.hyps[OF this one_rec(6)] one[OF less.prems(2) one_rec(2,3,4)] show ?thesis .
  next
    case (two_ret v q1 v1 v2)
    with two[OF less.prems(2)] show ?thesis by simp
  next
    case (two_rec v q1 v1 v2)
    have "nat (MAX_ITERATION - (ni + 1)) < nat (MAX_ITERATION - ni)" using two_rec(1) by simp
    from less.hyps[OF this two_rec(6)] two[OF less.prems(2) two_rec(2,3,4)] show ?thesis .
  qed
qed

subsection \<open>Order of the priority queue\<close>

text \<open>
  Two lists that are sorted by the same score and agree, score by score, on the order of
  their elements are equal: sortedness and stability leave no choice.
\<close>

lemma stable_sorted_unique:
  assumes "sorted (map f ys)" and "sorted (map f zs)"
    and "\<forall>k. filter (\<lambda>x. f x = k) ys = filter (\<lambda>x. f x = k) zs"
  shows "ys = zs"
  using assms
proof (induction ys arbitrary: zs)
  case Nil
  show ?case
  proof (cases zs)
    case Nil
    then show ?thesis by simp
  next
    case (Cons z zs')
    from Nil.prems(3) have "filter (\<lambda>x. f x = f z) [] = filter (\<lambda>x. f x = f z) zs" by blast
    with Cons show ?thesis by simp
  qed
next
  case (Cons y ys)
  from Cons.prems(3) have "filter (\<lambda>x. f x = f y) (y # ys) = filter (\<lambda>x. f x = f y) zs" by blast
  then have "zs \<noteq> []" by auto
  then obtain z zs' where zs: "zs = z # zs'" by (cases zs) auto
  have eq: "filter (\<lambda>x. f x = k) (y # ys) = filter (\<lambda>x. f x = k) (z # zs')" for k
    using Cons.prems(3) zs by simp
  have "z \<in> set (filter (\<lambda>x. f x = f z) (y # ys))" unfolding eq by simp
  then have "z \<in> set (y # ys)" by (simp only: set_filter) blast
  with Cons.prems(1) have 1: "f y \<le> f z" by auto
  have "y \<in> set (filter (\<lambda>x. f x = f y) (z # zs'))" unfolding eq[symmetric] by simp
  then have "y \<in> set (z # zs')" by (simp only: set_filter) blast
  with Cons.prems(2) zs have 2: "f z \<le> f y" by auto
  from 1 2 have fz: "f z = f y" by simp
  have a: "y # filter (\<lambda>x. f x = f y) ys = filter (\<lambda>x. f x = f y) (y # ys)" by simp
  have b: "filter (\<lambda>x. f x = f y) (z # zs') = z # filter (\<lambda>x. f x = f y) zs'"
    using fz by simp
  have "y # filter (\<lambda>x. f x = f y) ys = z # filter (\<lambda>x. f x = f y) zs'"
    by (rule trans[OF a trans[OF eq[of "f y"] b]])
  then have yz: "y = z"
    and tl0: "filter (\<lambda>x. f x = f y) ys = filter (\<lambda>x. f x = f y) zs'" by blast+
  have tl: "filter (\<lambda>x. f x = k) ys = filter (\<lambda>x. f x = k) zs'" for k
  proof (cases "k = f y")
    case True
    with tl0 show ?thesis by simp
  next
    case False
    with eq[of k] fz show ?thesis by simp
  qed
  from Cons.prems(1,2) zs have "sorted (map f ys)" "sorted (map f zs')" by simp_all
  from Cons.IH[OF this] tl have "ys = zs'" by blast
  with yz zs show ?case by simp
qed

text \<open>
  The one place where a queue is ordered, \<open>pq_sort\<close>, sorts ascending by the score and
  keeps the elements of equal score in the order of their insertion, and these two
  properties determine the contents: any ordering of the queue that is sorted and stable
  is the one \<open>pq_sort\<close> computes.
\<close>

lemma pq_sort_stable_order:
  "sorted (map (sort_key_pq q) (contents (pq_sort q))) \<and>
   (\<forall>k. filter (\<lambda>x. sort_key_pq q x = k) (contents (pq_sort q)) =
        filter (\<lambda>x. sort_key_pq q x = k) (contents q)) \<and>
   (\<forall>ys. sorted (map (sort_key_pq q) ys) \<and>
         (\<forall>k. filter (\<lambda>x. sort_key_pq q x = k) ys =
              filter (\<lambda>x. sort_key_pq q x = k) (contents q)) \<longrightarrow>
         ys = contents (pq_sort q)) \<and>
   sort_key_pq (pq_sort q) = sort_key_pq q \<and> sorted_pq (pq_sort q)"
proof -
  let ?f = "sort_key_pq q"
  have c: "contents (pq_sort q) = sort_key ?f (contents q)" by (simp add: pq_sort_def)
  have s: "sorted (map ?f (contents (pq_sort q)))" by (simp add: c)
  have st: "filter (\<lambda>x. ?f x = k) (contents (pq_sort q)) = filter (\<lambda>x. ?f x = k) (contents q)"
    for k by (simp add: c sort_key_stable)
  have "ys = contents (pq_sort q)"
    if "sorted (map ?f ys)"
      "\<forall>k. filter (\<lambda>x. ?f x = k) ys = filter (\<lambda>x. ?f x = k) (contents q)" for ys
    using that s st by (intro stable_sorted_unique[of ?f]) simp_all
  with s st show ?thesis by (simp add: pq_sort_def)
qed

subsection \<open>get\_palette on an input that is filtered out\<close>

lemma keep_pixel_transparent: "a < alpha_threshold \<Longrightarrow> keep_pixel nw nb (r, g, b, a) = []"
  by (simp add: keep_pixel_def)

lemma keep_pixel_white_only:
  "is_white r g b \<Longrightarrow> keep_pixel True False (r, g, b, a) = []"
  by (simp add: keep_pixel_def Let_def)

lemma keep_pixel_black_only:
  "is_black r g b \<Longrightarrow> keep_pixel False True (r, g, b, a) = []"
  by (simp add: keep_pixel_def Let_def)

lemma keep_pixel_both_exclusions:
  "a \<ge> alpha_threshold \<Longrightarrow> keep_pixel True True (r, g, b, a) = [(r, g, b)]"
  by (auto simp: keep_pixel_def Let_def is_white_def is_black_def white_threshold_def
      black_threshold_def)

lemma valid_pixels_empty_if:
  assumes "quality \<noteq> 0"
    and "\<forall>p \<in> set (ct_pixels ct). keep_pixel nw nb p = []"
  shows "valid_pixels ct quality nw nb = Inr []"
  using assms by (auto simp: valid_pixels_def range_step_def)



subsection \<open>Partial sums of a region\<close>

lemma sum_list_swap:
  "(\<Sum>x \<leftarrow> xs. \<Sum>y \<leftarrow> ys. (f x y :: int)) = (\<Sum>y \<leftarrow> ys. \<Sum>x \<leftarrow> xs. f x y)"
  by (induction xs) (simp_all add: sum_list_addf)

lemma sum_list_map_concat:
  "sum_list (map f (concat xss)) = (\<Sum>xs \<leftarrow> xss. sum_list (map f xs))"
  by (induction xss) simp_all

lemma count_nested:
  "count v = (\<Sum>i \<leftarrow> [r1 v..r2 v]. \<Sum>j \<leftarrow> [g1 v..g2 v]. \<Sum>k \<leftarrow> [b1 v..b2 v].
                histo_get (histo v) (get_color_index i j k))"
  by (simp add: count_def cells_def sum_list_map_concat comp_def)

lemma sum_slices_eq_count:
  "(\<Sum>i \<leftarrow> [dim1 a v..dim2 a v]. slice_sum (histo v) v a i) = count v"
proof (cases a)
  case Red
  then show ?thesis by (simp add: count_nested slice_sum_def dim1_def dim2_def)
next
  case Green
  then show ?thesis
    by (simp add: count_nested slice_sum_def dim1_def dim2_def
        sum_list_swap[of _ "[r1 v..r2 v]" "[g1 v..g2 v]"])
next
  case Blue
  have "(\<Sum>i \<leftarrow> [b1 v..b2 v]. \<Sum>j \<leftarrow> [r1 v..r2 v]. \<Sum>k \<leftarrow> [g1 v..g2 v].
            histo_get (histo v) (get_color_index j k i)) =
        (\<Sum>j \<leftarrow> [r1 v..r2 v]. \<Sum>i \<leftarrow> [b1 v..b2 v]. \<Sum>k \<leftarrow> [g1 v..g2 v].
            histo_get (histo v) (get_color_index j k i))"
    by (rule sum_list_swap)
  also have "\<dots> = (\<Sum>j \<leftarrow> [r1 v..r2 v]. \<Sum>k \<leftarrow> [g1 v..g2 v]. \<Sum>i \<leftarrow> [b1 v..b2 v].
            histo_get (histo v) (get_color_index j k i))"
    by (simp add: sum_list_swap[of _ "[b1 v..b2 v]" "[g1 v..g2 v]"])
  finally show ?thesis using Blue
    by (simp add: count_nested slice_sum_def dim1_def dim2_def)
qed

lemma fold_partialsum_add_fst:
  "fst (fold (partialsum_add h v a) xs (t0, m0)) = t0 + sum_list (map (slice_sum h v a) xs)"
  by (induction xs arbitrary: t0 m0) (simp_all add: partialsum_add_def Let_def)

lemma fold_partialsum_add_dom:
  "dom (snd (fold (partialsum_add h v a) xs (t0, m0))) = dom m0 \<union> set xs"
  by (induction xs arbitrary: t0 m0) (auto simp: partialsum_add_def Let_def)

lemma fold_partialsum_add_last:
  "snd (fold (partialsum_add h v a) (xs @ [x]) st) x =
     Some (fst (fold (partialsum_add h v a) (xs @ [x]) st))"
  by (cases "fold (partialsum_add h v a) xs st") (simp add: partialsum_add_def Let_def)

lemma partial_sums_tot: "fst (partial_sums (histo v) v a) = count v"
  by (simp add: partial_sums_def fold_partialsum_add_fst sum_slices_eq_count)

lemma partial_sums_dom: "dom (snd (partial_sums h v a)) = {dim1 a v..dim2 a v}"
  by (simp add: partial_sums_def fold_partialsum_add_dom)

lemma partial_sums_last:
  "dim1 a v \<le> dim2 a v \<Longrightarrow>
     snd (partial_sums h v a) (dim2 a v) = Some (fst (partial_sums h v a))"
  unfolding partial_sums_def
  by (subst (1 2) upto_rec2) (simp_all only: fold_partialsum_add_last)

subsection \<open>The two adjusting loops of the splitter\<close>

lemma skip_empty_returns:
  assumes "s \<le> hi" and "truthy (ps hi)"
  shows "\<exists>d. skip_empty ps s = Some d \<and> s \<le> d \<and> d \<le> hi \<and> truthy (ps d)"
  using assms
proof (induction "nat (hi - s)" arbitrary: s rule: less_induct)
  case less
  show ?case
  proof (cases "truthy (ps s)")
    case True
    then have "skip_empty ps s = Some s" by (subst skip_empty.simps) simp
    with True less.prems show ?thesis by simp
  next
    case False
    with less.prems have lt: "s < hi" by (cases "s = hi") auto
    then have "nat (hi - (s + 1)) < nat (hi - s)" by simp
    from less.hyps[OF this] lt less.prems(2)
    obtain d where d: "skip_empty ps (s + 1) = Some d" "s + 1 \<le> d" "d \<le> hi" "truthy (ps d)"
      by auto
    from False have "skip_empty ps s = skip_empty ps (s + 1)" by (subst skip_empty.simps) simp
    with d show ?thesis by simp
  qed
qed

lemma skip_empty_result:
  assumes "skip_empty ps s = Some d"
  shows "truthy (ps d)"
  by (rule skip_empty.raw_induct[where P = "\<lambda>ps s d. truthy (ps d)", OF _ assms])
     (auto split: if_splits)

lemma step_back_result:
  assumes "step_back ps la d c = Some d'"
  shows "d' \<le> d \<and> (d' = d \<or> truthy (ps d'))"
  by (rule step_back.raw_induct[where P = "\<lambda>ps la d c d'. d' \<le> d \<and> (d' = d \<or> truthy (ps d'))",
        OF _ assms])
     (fastforce split: if_splits)

lemma step_back_returns:
  assumes "\<forall>k. k < lo \<longrightarrow> ps k = None"
  shows "\<exists>d'. step_back ps la d c = Some d'"
proof (induction "nat (d - lo + 1)" arbitrary: d c rule: less_induct)
  case less
  show ?case
  proof (cases "\<not> truthy c \<and> truthy (ps (d - 1))")
    case True
    with assms have "lo \<le> d - 1" by (cases "d - 1 < lo") auto
    then have "nat (d - 1 - lo + 1) < nat (d - lo + 1)" by simp
    from less.hyps[OF this] obtain d' where "step_back ps la (d - 1) (la (d - 1)) = Some d'"
      by blast
    with True show ?thesis by (subst step_back.simps) simp
  next
    case False
    then show ?thesis by (subst step_back.simps) auto
  qed
qed

subsection \<open>What the splitter returns\<close>

lemma copy_id [simp]: "copy v = v"
  by (simp add: copy_def)

lemma dim2_set_dim2 [simp]: "dim2 a (set_dim2 a d v) = d"
  by (cases a) (simp_all add: dim2_def set_dim2_def)

lemma py_int_le: "x \<le> of_int n \<Longrightarrow> py_int x \<le> n"
  by (auto simp: py_int_def floor_le_iff ceiling_le_iff intro: order_trans less_le_trans)

lemma cut_at_result:
  assumes res: "cut_at v a ps la i = Some (Inr (x, y))"
    and dom: "dom ps \<subseteq> {dim1 a v..dim2 a v}"
  shows "\<exists>d. dim1 a v \<le> d \<and> d \<le> dim2 a v \<and>
             x = Some (set_dim2 a d v) \<and> y = Some (set_dim1 a (d + 1) v)"
proof -
  from res obtain s d1 d2 where
    d1: "skip_empty ps s = Some d1" and
    d2: "step_back ps la d1 (la d1) = Some d2" and
    xy: "x = Some (set_dim2 a d2 v)" "y = Some (set_dim1 a (d2 + 1) v)"
    by (auto simp: cut_at_def Let_def split: option.splits)
  from skip_empty_result[OF d1] step_back_result[OF d2] have "truthy (ps d2)" by auto
  then have "d2 \<in> dom ps" by (cases "ps d2") auto
  with dom have "dim1 a v \<le> d2 \<and> d2 \<le> dim2 a v" by auto
  with xy show ?thesis by blast
qed

lemma cut_loop_result:
  "cut_loop v a tot ps la is = Some (Inr (x, y)) \<Longrightarrow>
     (x = None \<and> y = None) \<or> (\<exists>i. cut_at v a ps la i = Some (Inr (x, y)))"
  by (induction "is") (auto split: option.splits if_splits)

lemma median_cut_apply_result:
  assumes "median_cut_apply h v = Some (Inr (x, y))"
  shows "(x = None \<and> y = None) \<or> (x = Some v \<and> y = None) \<or>
         (\<exists>d. dim1 (do_cut_color v) v \<le> d \<and> d \<le> dim2 (do_cut_color v) v \<and>
              x = Some (set_dim2 (do_cut_color v) d v) \<and>
              y = Some (set_dim1 (do_cut_color v) (d + 1) v))"
proof (cases "count v = 0 \<or> count v = 1")
  case True
  with assms show ?thesis by (auto simp: median_cut_apply_def split: if_splits)
next
  case False
  let ?a = "do_cut_color v"
  obtain tot ps where ps: "partial_sums h v ?a = (tot, ps)" by (cases "partial_sums h v ?a")
  let ?la = "\<lambda>i. map_option (\<lambda>d. tot - d) (ps i)"
  from assms False ps
  have "cut_loop v ?a tot ps ?la [dim1 ?a v..dim2 ?a v] = Some (Inr (x, y))"
    by (simp add: median_cut_apply_def Let_def)
  from cut_loop_result[OF this] show ?thesis
  proof
    assume "x = None \<and> y = None"
    then show ?thesis by simp
  next
    assume "\<exists>i. cut_at v ?a ps ?la i = Some (Inr (x, y))"
    then obtain i where i: "cut_at v ?a ps ?la i = Some (Inr (x, y))" ..
    have "dom ps \<subseteq> {dim1 ?a v..dim2 ?a v}"
      using partial_sums_dom[where h = h and v = v and a = ?a] ps by simp
    from cut_at_result[OF i this] show ?thesis by blast
  qed
qed

lemma cut_at_returns:
  assumes dom: "dom ps = {dim1 a v..dim2 a v}"
    and top: "truthy (ps (dim2 a v))"
    and i: "dim1 a v \<le> i" "i \<le> dim2 a v"
  shows "\<exists>d. dim1 a v \<le> d \<and> d \<le> dim2 a v \<and>
             cut_at v a ps la i =
               Some (Inr (Some (set_dim2 a d v), Some (set_dim1 a (d + 1) v)))"
proof -
  let ?lo = "dim1 a v" and ?hi = "dim2 a v"
  define s where "s = (if i - ?lo \<le> ?hi - i
                then min (?hi - 1) (py_int (of_int i + of_int (?hi - i) / 2))
                else max ?lo (py_int (of_int i - 1 - of_int (i - ?lo) / 2)))"
  have "py_int (of_int i - 1 - of_int (i - ?lo) / 2) \<le> i - 1"
    using i by (intro py_int_le) simp
  with i have "s \<le> ?hi" by (auto simp: s_def)
  from skip_empty_returns[where s = s and hi = ?hi and ps = ps, OF this top] obtain d1 where
    d1: "skip_empty ps s = Some d1" "truthy (ps d1)" by blast
  have "\<forall>k. k < ?lo \<longrightarrow> ps k = None"
  proof (intro allI impI)
    fix k assume "k < ?lo"
    then have "k \<notin> dom ps" unfolding dom by simp
    then show "ps k = None" by (simp add: domIff)
  qed
  from step_back_returns[OF this] obtain d2 where
    d2: "step_back ps la d1 (la d1) = Some d2" by blast
  from d1(2) step_back_result[OF d2] have "truthy (ps d2)" by auto
  then have "d2 \<in> dom ps" by (cases "ps d2") auto
  with dom have "?lo \<le> d2" "d2 \<le> ?hi" by auto
  moreover have "cut_at v a ps la i =
      Some (Inr (Some (set_dim2 a d2 v), Some (set_dim1 a (d2 + 1) v)))"
    using d1(1) d2 by (simp add: cut_at_def Let_def s_def)
  ultimately show ?thesis by blast
qed

lemma cut_loop_returns:
  assumes "\<forall>i \<in> set is. \<exists>d. ps i = Some d"
    and "\<exists>i \<in> set is. \<exists>d. ps i = Some d \<and> tot < 2 * d"
  shows "\<exists>i \<in> set is. cut_loop v a tot ps la is = cut_at v a ps la i"
  using assms
proof (induction "is")
  case Nil
  then show ?case by simp
next
  case (Cons i "is")
  from Cons.prems(1) obtain d where d: "ps i = Some d" by auto
  show ?case
  proof (cases "tot < 2 * d")
    case True
    then have "(of_int d :: rat) > of_int tot / 2"
      by (simp add: divide_less_eq)
    with d show ?thesis by simp
  next
    case False
    then have "\<not> (of_int d :: rat) > of_int tot / 2"
      by (simp add: divide_less_eq)
    moreover from False d Cons.prems have "\<forall>i \<in> set is. \<exists>d. ps i = Some d"
      "\<exists>i \<in> set is. \<exists>d. ps i = Some d \<and> tot < 2 * d" by auto
    from Cons.IH[OF this] obtain j where "j \<in> set is"
      "cut_loop v a tot ps la is = cut_at v a ps la j" by blast
    ultimately show ?thesis using d by auto
  qed
qed

lemma median_cut_apply_returns:
  assumes h: "histo v = h" and c: "2 \<le> count v"
  shows "\<exists>d. dim1 (do_cut_color v) v \<le> d \<and> d \<le> dim2 (do_cut_color v) v \<and>
             median_cut_apply h v =
               Some (Inr (Some (set_dim2 (do_cut_color v) d v),
                          Some (set_dim1 (do_cut_color v) (d + 1) v)))"
proof -
  let ?a = "do_cut_color v"
  let ?lo = "dim1 ?a v" and ?hi = "dim2 ?a v"
  obtain tot ps where ps: "partial_sums h v ?a = (tot, ps)" by (cases "partial_sums h v ?a")
  let ?la = "\<lambda>i. map_option (\<lambda>d. tot - d) (ps i)"
  have tot: "tot = count v" using partial_sums_tot[where v = v and a = ?a] ps h by simp
  have dom: "dom ps = {?lo..?hi}" using partial_sums_dom[where h = h and v = v and a = ?a] ps by simp
  have le: "?lo \<le> ?hi"
  proof (rule ccontr)
    assume "\<not> ?lo \<le> ?hi"
    then have "[?lo..?hi] = []" by simp
    with sum_slices_eq_count[where a = ?a and v = v] c show False by simp
  qed
  have top: "ps ?hi = Some tot" using partial_sums_last[where h = h, OF le] ps by simp
  have mca: "median_cut_apply h v = cut_loop v ?a tot ps ?la [?lo..?hi]"
    using c ps by (simp add: median_cut_apply_def Let_def)
  have "\<forall>i \<in> set [?lo..?hi]. \<exists>d. ps i = Some d"
  proof
    fix i assume "i \<in> set [?lo..?hi]"
    then have "i \<in> dom ps" unfolding dom by simp
    then show "\<exists>d. ps i = Some d" by (simp add: domIff)
  qed
  moreover have "\<exists>i \<in> set [?lo..?hi]. \<exists>d. ps i = Some d \<and> tot < 2 * d"
    using top le tot c by (intro bexI[of _ ?hi]) auto
  ultimately obtain i where i: "i \<in> set [?lo..?hi]"
    "cut_loop v ?a tot ps ?la [?lo..?hi] = cut_at v ?a ps ?la i"
    using cut_loop_returns by blast
  have "truthy (ps ?hi)" using top tot c by simp
  from cut_at_returns[where la = ?la and i = i, OF dom this] i mca show ?thesis by auto
qed

subsection \<open>The split axis\<close>

text \<open>
  Claim C7: for a region with count at least 2 the splitter cuts along the axis of the
  largest extent, and among axes of equal largest extent along the first in the order
  red, green, blue: it returns two children that differ from the region in the upper,
  respectively lower, bound of that axis only, cut at a plane \<open>d\<close> inside the region.
\<close>

theorem median_cut_apply_axis:
  assumes "histo v = h" and "2 \<le> count v"
  shows "(let rw = r2 v - r1 v + 1; gw = g2 v - g1 v + 1; bw = b2 v - b1 v + 1
          in (gw \<le> rw \<and> bw \<le> rw \<longrightarrow>
                (\<exists>d. r1 v \<le> d \<and> d \<le> r2 v \<and>
                   median_cut_apply h v = Some (Inr (Some (v\<lparr>r2 := d\<rparr>), Some (v\<lparr>r1 := d + 1\<rparr>))))) \<and>
             (rw < gw \<and> bw \<le> gw \<longrightarrow>
                (\<exists>d. g1 v \<le> d \<and> d \<le> g2 v \<and>
                   median_cut_apply h v = Some (Inr (Some (v\<lparr>g2 := d\<rparr>), Some (v\<lparr>g1 := d + 1\<rparr>))))) \<and>
             (rw < bw \<and> gw < bw \<longrightarrow>
                (\<exists>d. b1 v \<le> d \<and> d \<le> b2 v \<and>
                   median_cut_apply h v = Some (Inr (Some (v\<lparr>b2 := d\<rparr>), Some (v\<lparr>b1 := d + 1\<rparr>))))))"
proof -
  let ?rw = "r2 v - r1 v + 1" and ?gw = "g2 v - g1 v + 1" and ?bw = "b2 v - b1 v + 1"
  from median_cut_apply_returns[OF assms] obtain d where
    d: "dim1 (do_cut_color v) v \<le> d" "d \<le> dim2 (do_cut_color v) v"
      "median_cut_apply h v =
         Some (Inr (Some (set_dim2 (do_cut_color v) d v),
                    Some (set_dim1 (do_cut_color v) (d + 1) v)))"
    by blast
  have red: "do_cut_color v = Red" if "?gw \<le> ?rw" "?bw \<le> ?rw"
    using that by (simp add: do_cut_color_def Let_def max_def)
  have green: "do_cut_color v = Green" if "?rw < ?gw" "?bw \<le> ?gw"
    using that by (simp add: do_cut_color_def Let_def max_def)
  have blue: "do_cut_color v = Blue" if "?rw < ?bw" "?gw < ?bw"
    using that by (simp add: do_cut_color_def Let_def max_def)
  show ?thesis
    unfolding Let_def
  proof (intro conjI impI)
    assume "?gw \<le> ?rw \<and> ?bw \<le> ?rw"
    then have "do_cut_color v = Red" using red by simp
    with d show "\<exists>d. r1 v \<le> d \<and> d \<le> r2 v \<and>
        median_cut_apply h v = Some (Inr (Some (v\<lparr>r2 := d\<rparr>), Some (v\<lparr>r1 := d + 1\<rparr>)))"
      by (auto simp: dim1_def dim2_def set_dim1_def set_dim2_def)
  next
    assume "?rw < ?gw \<and> ?bw \<le> ?gw"
    then have "do_cut_color v = Green" using green by simp
    with d show "\<exists>d. g1 v \<le> d \<and> d \<le> g2 v \<and>
        median_cut_apply h v = Some (Inr (Some (v\<lparr>g2 := d\<rparr>), Some (v\<lparr>g1 := d + 1\<rparr>)))"
      by (auto simp: dim1_def dim2_def set_dim1_def set_dim2_def)
  next
    assume "?rw < ?bw \<and> ?gw < ?bw"
    then have "do_cut_color v = Blue" using blue by simp
    with d show "\<exists>d. b1 v \<le> d \<and> d \<le> b2 v \<and>
        median_cut_apply h v = Some (Inr (Some (v\<lparr>b2 := d\<rparr>), Some (v\<lparr>b1 := d + 1\<rparr>)))"
      by (auto simp: dim1_def dim2_def set_dim1_def set_dim2_def)
  qed
qed

text \<open>
  A region of extents 1, 2, 2 with two pixels: green and blue tie for the maximum and the
  cut is along green.
\<close>

theorem median_cut_apply_axis_witness:
  "histo \<lparr>r1 = 0, r2 = 0, g1 = 0, g2 = 1, b1 = 0, b2 = 1, histo = [0 \<mapsto> 1, 33 \<mapsto> 1]\<rparr> =
     [0 \<mapsto> 1, 33 \<mapsto> 1] \<and>
   2 \<le> count \<lparr>r1 = 0, r2 = 0, g1 = 0, g2 = 1, b1 = 0, b2 = 1, histo = [0 \<mapsto> 1, 33 \<mapsto> 1]\<rparr> \<and>
   (\<exists>d. 0 \<le> d \<and> d \<le> 1 \<and>
      median_cut_apply [0 \<mapsto> 1, 33 \<mapsto> 1]
        \<lparr>r1 = 0, r2 = 0, g1 = 0, g2 = 1, b1 = 0, b2 = 1, histo = [0 \<mapsto> 1, 33 \<mapsto> 1]\<rparr> =
      Some (Inr (Some \<lparr>r1 = 0, r2 = 0, g1 = 0, g2 = d, b1 = 0, b2 = 1, histo = [0 \<mapsto> 1, 33 \<mapsto> 1]\<rparr>,
                 Some \<lparr>r1 = 0, r2 = 0, g1 = d + 1, g2 = 1, b1 = 0, b2 = 1,
                        histo = [0 \<mapsto> 1, 33 \<mapsto> 1]\<rparr>)))"
proof -
  let ?h = "[0 \<mapsto> 1, 33 \<mapsto> (1::int)] :: int \<rightharpoonup> int"
  let ?v = "\<lparr>r1 = 0, r2 = 0, g1 = 0, g2 = 1, b1 = 0, b2 = 1, histo = ?h\<rparr>"
  have h1: "histo ?v = ?h" by simp
  have h2: "2 \<le> count ?v" by code_simp
  from median_cut_apply_axis [OF h1 h2] h1 h2 show ?thesis
    by (simp add: Let_def)
qed

subsection \<open>The regions that hold a pixel\<close>

lemma holders_append [simp]: "holders p (xs @ ys) = holders p xs + holders p ys"
  by (simp add: holders_def)

lemma holders_Nil [simp]: "holders p [] = 0"
  by (simp add: holders_def)

lemma holders_single: "holders p [v] = (if contains v p then 1 else 0)"
  by (simp add: holders_def)

lemma holders_sort_key [simp]: "holders p (sort_key f xs) = holders p xs"
  by (simp add: holders_def filter_sort)

lemma pq_pop_contents:
  assumes "pq_pop q = Inr (x, q1)"
  shows "\<exists>xs. (xs = contents q \<or> xs = sort_key (sort_key_pq q) (contents q)) \<and>
              xs = contents q1 @ [x] \<and> sort_key_pq q1 = sort_key_pq q"
proof -
  let ?q = "if \<not> sorted_pq q then pq_sort q else q"
  from assms have ne: "contents ?q \<noteq> []" and x: "x = last (contents ?q)"
    and q1: "q1 = ?q\<lparr>contents := butlast (contents ?q)\<rparr>"
    by (auto simp: pq_pop_def Let_def split: if_splits)
  from ne x q1 have "contents ?q = contents q1 @ [x]" by simp
  moreover have "contents ?q = contents q \<or> contents ?q = sort_key (sort_key_pq q) (contents q)"
    by (simp add: pq_sort_def)
  moreover have "sort_key_pq q1 = sort_key_pq q" using q1 by (simp add: pq_sort_def)
  ultimately show ?thesis by blast
qed

lemma pq_pop_holders:
  assumes "pq_pop q = Inr (x, q1)"
  shows "holders p (contents q1) + holders p [x] = holders p (contents q)"
  using pq_pop_contents[OF assms] by (auto simp del: holders_append simp: holders_append[symmetric])

lemma pq_push_contents [simp]: "contents (pq_push q x) = contents q @ [x]"
  by (simp add: pq_push_def)

lemma contains_children:
  assumes "dim1 a v \<le> d + 1" and "d \<le> dim2 a v"
  shows "holders p [set_dim2 a d v] + holders p [set_dim1 a (d + 1) v] = holders p [v]"
  using assms
  by (cases a; cases p)
     (auto simp: holders_def contains_def Let_def dim1_def dim2_def set_dim1_def set_dim2_def)

lemma iter_loop_holders:
  assumes "iter_loop h lh t nc ni = Some (Inr lh')"
  shows "holders p (contents lh') = holders p (contents lh)"
proof -
  define n where "n = holders p (contents lh)"
  have "holders p (contents lh') = n"
  proof (rule iter_loop_invariant[OF assms, where P = "\<lambda>q. holders p (contents q) = n"])
    show "holders p (contents lh) = n" by (simp add: n_def)
  next
    fix q v q1
    assume "holders p (contents q) = n" "pq_pop q = Inr (v, q1)"
    with pq_pop_holders[of q v q1 p] show "holders p (contents (pq_push q1 v)) = n" by simp
  next
    fix q v q1 v1
    assume "holders p (contents q) = n" "pq_pop q = Inr (v, q1)"
      "median_cut_apply h v = Some (Inr (Some v1, None))"
    with pq_pop_holders[of q v q1 p] median_cut_apply_result[of h v "Some v1" None]
    show "holders p (contents (pq_push q1 v1)) = n" by simp
  next
    fix q v q1 v1 v2
    assume a: "holders p (contents q) = n" "pq_pop q = Inr (v, q1)"
      "median_cut_apply h v = Some (Inr (Some v1, Some v2))"
    from median_cut_apply_result[OF a(3)] obtain d where
      "dim1 (do_cut_color v) v \<le> d" "d \<le> dim2 (do_cut_color v) v"
      "v1 = set_dim2 (do_cut_color v) d v" "v2 = set_dim1 (do_cut_color v) (d + 1) v"
      by auto
    with contains_children[of "do_cut_color v" v d p]
    have "holders p [v1] + holders p [v2] = holders p [v]" by simp
    moreover have "holders p [v1, v2] = holders p [v1] + holders p [v2]"
      by (simp add: holders_def)
    ultimately show "holders p (contents (pq_push (pq_push q1 v1) v2)) = n"
      using a pq_pop_holders[of q v q1 p] by simp
  qed
  then show ?thesis by (simp add: n_def)
qed

lemma transfer_holders:
  "transfer pq pq2 = Inr q' \<Longrightarrow>
     holders p (contents q') = holders p (contents pq) + holders p (contents pq2)"
proof (induction pq pq2 rule: transfer.induct)
  case (1 pq pq2)
  show ?case
  proof (cases "pq_size pq \<noteq> 0")
    case False
    with "1.prems" show ?thesis
      by (subst (asm) transfer.simps) (simp add: pq_size_def)
  next
    case True
    with "1.prems" obtain x pq' where pop: "pq_pop pq = Inr (x, pq')"
      and rec: "transfer pq' (pq_push pq2 x) = Inr q'"
      by (subst (asm) transfer.simps) (auto split: sum.splits)
    from "1.IH"[OF True pop refl rec] pq_pop_holders[OF pop, of p] show ?thesis by simp
  qed
qed

lemma cmap_push_contents [simp]:
  "contents (vboxes (cmap_push cm v)) = contents (vboxes cm) @ [\<lparr>vbox = v, color = avg v\<rparr>]"
  by (simp add: cmap_push_def)

lemma drain_holders:
  "drain pq2 cm = Inr cm' \<Longrightarrow>
     holders p (map vbox (contents (vboxes cm'))) =
       holders p (contents pq2) + holders p (map vbox (contents (vboxes cm)))"
proof (induction pq2 cm rule: drain.induct)
  case (1 pq2 cm)
  show ?case
  proof (cases "pq_size pq2 \<noteq> 0")
    case False
    with "1.prems" show ?thesis
      by (subst (asm) drain.simps) (simp add: pq_size_def)
  next
    case True
    with "1.prems" obtain x pq' where pop: "pq_pop pq2 = Inr (x, pq')"
      and rec: "drain pq' (cmap_push cm x) = Inr cm'"
      by (subst (asm) drain.simps) (auto split: sum.splits)
    from "1.IH"[OF True pop refl rec] pq_pop_holders[OF pop, of p] show ?thesis by simp
  qed
qed

lemma quantize_phases_holders:
  assumes "quantize_phases h vbox0 N = Some (Inr cm)"
  shows "holders p (map vbox (contents (vboxes cm))) = holders p [vbox0]"
proof -
  from assms obtain pq' pq2 pq2' where
    1: "iter_loop h (pq_push (PQueue_init count) vbox0) (FRACT_BY_POPULATIONS * of_int N) 1 0 =
          Some (Inr pq')" and
    2: "transfer pq' (PQueue_init (\<lambda>x. count x * volume x)) = Inr pq2" and
    3: "iter_loop h pq2 (of_int (N - pq_size pq2)) 1 0 = Some (Inr pq2')" and
    4: "drain pq2' CMap_init = Inr cm"
    by (auto simp: quantize_phases_def iter_def Let_def split: option.splits sum.splits)
  from iter_loop_holders[OF 1, of p] transfer_holders[OF 2, of p] iter_loop_holders[OF 3, of p]
    drain_holders[OF 4, of p]
  show ?thesis by (simp add: PQueue_init_def CMap_init_def)
qed

lemma fold_bounds_add_covers:
  assumes "fold bounds_add pxs (a, b, c, d, e, f) = (a', b', c', d', e', f')"
  shows "a' \<le> a \<and> b \<le> b' \<and> c' \<le> c \<and> d \<le> d' \<and> e' \<le> e \<and> f \<le> f' \<and>
         (\<forall>(p0, p1, p2) \<in> set pxs.
            a' \<le> drop_bit RSHIFT p0 \<and> drop_bit RSHIFT p0 \<le> b' \<and>
            c' \<le> drop_bit RSHIFT p1 \<and> drop_bit RSHIFT p1 \<le> d' \<and>
            e' \<le> drop_bit RSHIFT p2 \<and> drop_bit RSHIFT p2 \<le> f')"
  using assms
proof (induction pxs arbitrary: a b c d e f)
  case Nil
  then show ?case by simp
next
  case (Cons p pxs)
  obtain p0 p1 p2 where p: "p = (p0, p1, p2)" by (cases p) auto
  let ?r = "drop_bit RSHIFT p0" and ?g = "drop_bit RSHIFT p1" and ?b = "drop_bit RSHIFT p2"
  have step: "bounds_add p (a, b, c, d, e, f) =
      (min ?r a, max ?r b, min ?g c, max ?g d, min ?b e, max ?b f)"
    by (simp add: p bounds_add_def Let_def)
  from Cons.prems have
    "fold bounds_add pxs (min ?r a, max ?r b, min ?g c, max ?g d, min ?b e, max ?b f) =
       (a', b', c', d', e', f')"
    by (simp only: fold_Cons comp_apply step)
  from Cons.IH[OF this] show ?case by (auto simp: p)
qed

lemma vbox_from_pixels_contains:
  assumes "p \<in> set pxs"
  shows "contains (vbox_from_pixels pxs h) p"
proof -
  obtain a' b' c' d' e' f' where
    fb: "fold bounds_add pxs (1000000, 0, 1000000, 0, 1000000, 0) = (a', b', c', d', e', f')"
    by (metis prod_cases3)
  obtain p0 p1 p2 where p: "p = (p0, p1, p2)" by (cases p) auto
  from fold_bounds_add_covers[OF fb] assms show ?thesis
    by (auto simp: vbox_from_pixels_def fb contains_def Let_def p)
qed

text \<open>
  Claim C6: after a successful quantization the retained regions are pairwise disjoint in
  reduced coordinates, and every pixel of the input lies in exactly one of them: no
  pixel at all is contained in two retained regions, and an input pixel is contained in
  one. (Regions are counted with multiplicity, so equal empty regions do not matter.)
\<close>

theorem quantize_regions_disjoint:
  assumes "quantize pxs N = Some (Inr cm)"
  shows "(\<forall>p. holders p (map vbox (contents (vboxes cm))) \<le> 1) \<and>
         (\<forall>p \<in> set pxs. holders p (map vbox (contents (vboxes cm))) = 1)"
proof -
  let ?h = "get_histo pxs"
  let ?v = "vbox_from_pixels pxs ?h"
  from assms have "quantize_phases ?h ?v N = Some (Inr cm)"
    by (simp add: quantize_def Let_def split: if_splits)
  then have eq: "holders p (map vbox (contents (vboxes cm))) = holders p [?v]" for p
    by (rule quantize_phases_holders)
  show ?thesis
    by (auto simp: eq holders_single vbox_from_pixels_contains)
qed

text \<open>Three pixels in three buckets, target 2: three retained regions, one per pixel.\<close>

theorem quantize_regions_disjoint_witness:
  "\<exists>cm. quantize [(0, 0, 0), (8, 0, 0), (16, 0, 0)] 2 = Some (Inr cm) \<and>
      length (contents (vboxes cm)) = 3 \<and>
      holders (0, 0, 0) (map vbox (contents (vboxes cm))) = 1 \<and>
      holders (8, 0, 0) (map vbox (contents (vboxes cm))) = 1 \<and>
      holders (16, 0, 0) (map vbox (contents (vboxes cm))) = 1 \<and>
      holders (255, 255, 255) (map vbox (contents (vboxes cm))) \<le> 1"
proof -
  have "(case quantize [(0, 0, 0), (8, 0, 0), (16, 0, 0)] 2 of
           Some (Inr cm) \<Rightarrow> length (contents (vboxes cm)) = 3 | _ \<Rightarrow> False)"
    by code_simp
  then obtain cm where cm: "quantize [(0, 0, 0), (8, 0, 0), (16, 0, 0)] 2 = Some (Inr cm)"
    and len: "length (contents (vboxes cm)) = 3"
    by (auto split: option.splits sum.splits)
  from quantize_regions_disjoint [OF cm] cm len show ?thesis by simp
qed

subsection \<open>Order of the palette before and after a lookup\<close>

lemma pq_pop_ensure:
  "pq_pop q = (if contents (ensure_sorted q) = [] then Inl IndexError
               else Inr (last (contents (ensure_sorted q)),
                         (ensure_sorted q)\<lparr>contents := butlast (contents (ensure_sorted q))\<rparr>))"
  by (simp add: pq_pop_def ensure_sorted_def Let_def)

lemma ensure_sorted_simps [simp]:
  "sort_key_pq (ensure_sorted q) = sort_key_pq q"
  "sorted_pq (ensure_sorted q) = True"
  "length (contents (ensure_sorted q)) = length (contents q)"
  "ensure_sorted (ensure_sorted q) = ensure_sorted q"
  by (simp_all add: ensure_sorted_def pq_sort_def)

lemma ensure_sorted_Nil: "contents (ensure_sorted q) = [] \<longleftrightarrow> contents q = []"
  using ensure_sorted_simps(3)[of q] by (metis length_0_conv)

lemma ensure_sorted_contents:
  "pq_ordered q \<Longrightarrow> contents (ensure_sorted q) = sort_key (sort_key_pq q) (contents q)"
  by (auto simp: ensure_sorted_def pq_sort_def pq_ordered_def sort_key_id_if_sorted)

lemma pq_ordered_push [simp]: "pq_ordered (pq_push q x)"
  by (simp add: pq_ordered_def pq_push_def)

lemma sorted_butlast_map: "sorted (map f xs) \<Longrightarrow> sorted (map f (butlast xs))"
  by (cases "xs = []") (simp_all add: map_butlast sorted_butlast)

lemma pq_ordered_pop:
  assumes "pq_ordered q" "pq_pop q = Inr (x, q1)"
  shows "pq_ordered q1"
proof -
  from assms(2) have q1: "q1 = (ensure_sorted q)\<lparr>contents := butlast (contents (ensure_sorted q))\<rparr>"
    by (auto simp: pq_pop_ensure split: if_splits)
  have "sorted (map (sort_key_pq q) (contents (ensure_sorted q)))"
    by (simp add: ensure_sorted_contents[OF assms(1)])
  then show ?thesis by (simp add: q1 pq_ordered_def sorted_butlast_map)
qed

lemma pq_pop_ensure_Inr:
  assumes "pq_pop q = Inr (x, q1)"
  shows "contents (ensure_sorted q) = contents q1 @ [x]" "sorted_pq q1" "sort_key_pq q1 = sort_key_pq q"
  using assms by (auto simp: pq_pop_ensure split: if_splits)

lemma pq_push_simps [simp]:
  "sort_key_pq (pq_push q x) = sort_key_pq q"
  "sorted_pq (pq_push q x) = False"
  by (simp_all add: pq_push_def)

lemma cmap_push_simps [simp]:
  "sort_key_pq (vboxes (cmap_push cm v)) = sort_key_pq (vboxes cm)"
  "sorted_pq (vboxes (cmap_push cm v)) = False"
  by (simp_all add: cmap_push_def)

lemma drain_contents:
  assumes "pq_ordered pq2" and "drain pq2 cm = Inr cm'"
  shows "contents (vboxes cm') =
           contents (vboxes cm) @
           map (\<lambda>v. \<lparr>vbox = v, color = avg v\<rparr>) (rev (sort_key (sort_key_pq pq2) (contents pq2))) \<and>
         sort_key_pq (vboxes cm') = sort_key_pq (vboxes cm) \<and>
         (\<not> sorted_pq (vboxes cm) \<longrightarrow> \<not> sorted_pq (vboxes cm'))"
  using assms
proof (induction pq2 cm rule: drain.induct)
  case (1 pq2 cm)
  show ?case
  proof (cases "pq_size pq2 \<noteq> 0")
    case False
    with "1.prems"(2) have "cm' = cm" by (subst (asm) drain.simps) simp
    moreover from False have "contents pq2 = []" by (simp add: pq_size_def)
    ultimately show ?thesis by simp
  next
    case True
    with "1.prems"(2) obtain x pq' where pop: "pq_pop pq2 = Inr (x, pq')"
      and rec: "drain pq' (cmap_push cm x) = Inr cm'"
      by (subst (asm) drain.simps) (auto split: sum.splits)
    let ?f = "sort_key_pq pq2"
    let ?S = "sort_key ?f (contents pq2)"
    have S: "?S = contents pq' @ [x]"
      using pq_pop_ensure_Inr(1)[OF pop] ensure_sorted_contents[OF "1.prems"(1)] by simp
    have ord: "pq_ordered pq'" using "1.prems"(1) pop by (rule pq_ordered_pop)
    have key: "sort_key_pq pq' = ?f" using pq_pop_ensure_Inr(3)[OF pop] .
    have "sorted (map ?f ?S)" by simp
    then have "sorted (map ?f (contents pq'))" unfolding S by (simp add: sorted_append)
    then have id: "sort_key ?f (contents pq') = contents pq'" by (rule sort_key_id_if_sorted)
    from "1.IH"[OF True pop refl ord rec] show ?thesis
      by (simp add: key id S)
  qed
qed

lemma transfer_props:
  assumes "transfer pq pq2 = Inr q'"
  shows "sort_key_pq q' = sort_key_pq pq2 \<and>
         length (contents q') = length (contents pq) + length (contents pq2) \<and>
         (pq_ordered pq2 \<longrightarrow> pq_ordered q')"
  using assms
proof (induction pq pq2 rule: transfer.induct)
  case (1 pq pq2)
  show ?case
  proof (cases "pq_size pq \<noteq> 0")
    case False
    with "1.prems" show ?thesis
      by (subst (asm) transfer.simps) (simp add: pq_size_def)
  next
    case True
    with "1.prems" obtain x pq' where pop: "pq_pop pq = Inr (x, pq')"
      and rec: "transfer pq' (pq_push pq2 x) = Inr q'"
      by (subst (asm) transfer.simps) (auto split: sum.splits)
    have "length (contents (ensure_sorted pq)) = length (contents pq') + 1"
      using pq_pop_ensure_Inr(1)[OF pop] by simp
    then have "length (contents pq) = length (contents pq') + 1" by simp
    with "1.IH"[OF True pop refl rec] show ?thesis by simp
  qed
qed

lemma iter_loop_props:
  assumes "iter_loop h lh t nc ni = Some (Inr lh')"
    and "pq_ordered lh" and "contents lh \<noteq> []"
  shows "pq_ordered lh' \<and> contents lh' \<noteq> [] \<and> sort_key_pq lh' = sort_key_pq lh"
proof (rule iter_loop_invariant[OF assms(1),
      where P = "\<lambda>q. pq_ordered q \<and> contents q \<noteq> [] \<and> sort_key_pq q = sort_key_pq lh"])
  show "pq_ordered lh \<and> contents lh \<noteq> [] \<and> sort_key_pq lh = sort_key_pq lh"
    using assms by simp
qed (auto dest: pq_pop_ensure_Inr(3))

lemma pq_peek_in_range:
  assumes "0 \<le> i" and "i < int (length (contents q))"
  shows "pq_peek q (Some i) = Inr (contents (ensure_sorted q) ! nat i, ensure_sorted q)"
  using assms by (simp add: pq_peek_def ensure_sorted_def Let_def pq_sort_def)

lemma nearest_loop_queue:
  assumes "\<forall>i \<in> set is. 0 \<le> i \<and> i < int (length (contents q))"
  shows "\<exists>r. nearest_loop q c d1 pc is = Inr (r, if is = [] then q else ensure_sorted q)"
  using assms
proof (induction "is" arbitrary: q d1 pc)
  case Nil
  then show ?case by simp
next
  case (Cons i "is")
  let ?q = "ensure_sorted q"
  from Cons.prems have peek: "pq_peek q (Some i) = Inr (contents ?q ! nat i, ?q)"
    by (intro pq_peek_in_range) auto
  from Cons.prems have rng: "\<forall>i \<in> set is. 0 \<le> i \<and> i < int (length (contents ?q))" by simp
  have rec: "\<exists>r. nearest_loop ?q c d1' pc' is = Inr (r, ?q)" for d1' pc'
    using Cons.IH[OF rng, of d1' pc'] by (cases "is = []") simp_all
  obtain c0 c1 c2 where c: "c = (c0, c1, c2)" by (cases c) auto
  obtain v0 v1 v2 where v: "color (contents ?q ! nat i) = (v0, v1, v2)"
    by (cases "color (contents ?q ! nat i)") auto
  let ?d2 = "(c0 - v0)\<^sup>2 + (c1 - v1)\<^sup>2 + (c2 - v2)\<^sup>2"
  show ?case
  proof (cases "case d1 of None \<Rightarrow> True | Some d \<Rightarrow> ?d2 < d")
    case True
    with rec[of "Some ?d2" "Some (v0, v1, v2)"] show ?thesis
      by (simp add: peek c[symmetric] v Let_def) (simp add: c v)
  next
    case False
    with rec[of d1 pc] show ?thesis
      by (simp add: peek c[symmetric] v Let_def) (simp add: c)
  qed
qed

lemma nearest_queue:
  assumes "contents (vboxes cm) \<noteq> []"
  shows "\<exists>r. nearest cm c = Inr (r, cm\<lparr>vboxes := ensure_sorted (vboxes cm)\<rparr>)"
proof -
  let ?is = "[0..cmap_size cm - 1]"
  from assms have ne: "?is \<noteq> []" by (simp add: cmap_size_def pq_size_def)
  have "\<forall>i \<in> set ?is. 0 \<le> i \<and> i < int (length (contents (vboxes cm)))"
    by (auto simp: cmap_size_def pq_size_def)
  from nearest_loop_queue[OF this, of c None None] ne show ?thesis
    by (auto simp: nearest_def)
qed

lemma map_loop_queue:
  assumes "\<forall>i \<in> set is. 0 \<le> i \<and> i < int (length (contents (vboxes cm)))"
    and "contents (vboxes cm) \<noteq> []"
  shows "\<exists>r. map_loop cm c is = Inr (r, cm\<lparr>vboxes := ensure_sorted (vboxes cm)\<rparr>)"
  using assms
proof (induction "is" arbitrary: cm)
  case Nil
  then show ?case using nearest_queue[of cm c] by simp
next
  case (Cons i "is")
  let ?q = "ensure_sorted (vboxes cm)"
  let ?cm = "cm\<lparr>vboxes := ?q\<rparr>"
  from Cons.prems have peek: "pq_peek (vboxes cm) (Some i) = Inr (contents ?q ! nat i, ?q)"
    by (intro pq_peek_in_range) auto
  have "\<forall>i \<in> set is. 0 \<le> i \<and> i < int (length (contents (vboxes ?cm)))"
    using Cons.prems by simp
  moreover have "contents (vboxes ?cm) \<noteq> []"
    using Cons.prems(2) by (simp add: ensure_sorted_Nil)
  ultimately obtain r where "map_loop ?cm c is = Inr (r, ?cm\<lparr>vboxes := ensure_sorted (vboxes ?cm)\<rparr>)"
    using Cons.IH[of ?cm] by blast
  then show ?case by (simp add: peek)
qed

lemma cmap_map_queue:
  assumes "contents (vboxes cm) \<noteq> []"
  shows "\<exists>r. cmap_map cm c = Inr (r, cm\<lparr>vboxes := ensure_sorted (vboxes cm)\<rparr>)"
  unfolding cmap_map_def
  by (rule map_loop_queue) (use assms in \<open>auto simp: cmap_size_def pq_size_def\<close>)

lemma pq_ordered_init [simp]: "pq_ordered (PQueue_init f)"
  by (simp add: pq_ordered_def PQueue_init_def)

lemma quantize_phases_cmap:
  assumes "quantize_phases h vbox0 N = Some (Inr cm)"
  shows "contents (vboxes cm) \<noteq> [] \<and> \<not> sorted_pq (vboxes cm) \<and>
         sort_key_pq (vboxes cm) = entry_key \<and>
         sorted (rev (map entry_key (contents (vboxes cm))))"
proof -
  let ?f = "\<lambda>x. count x * volume x"
  from assms obtain pq' pq2 pq2' where
    1: "iter_loop h (pq_push (PQueue_init count) vbox0) (FRACT_BY_POPULATIONS * of_int N) 1 0 =
          Some (Inr pq')" and
    2: "transfer pq' (PQueue_init ?f) = Inr pq2" and
    3: "iter_loop h pq2 (of_int (N - pq_size pq2)) 1 0 = Some (Inr pq2')" and
    4: "drain pq2' CMap_init = Inr cm"
    by (auto simp: quantize_phases_def iter_def Let_def split: option.splits sum.splits)
  from iter_loop_props[OF 1] have p1: "contents pq' \<noteq> []" by simp
  from transfer_props[OF 2] p1 pq_ordered_init[of ?f] have p2: "pq_ordered pq2"
    "contents pq2 \<noteq> []" "sort_key_pq pq2 = ?f"
    by (auto simp: PQueue_init_def)
  from iter_loop_props[OF 3 p2(1,2)] p2(3) have p3: "pq_ordered pq2'" "contents pq2' \<noteq> []"
    "sort_key_pq pq2' = ?f"
    by simp_all
  let ?S = "sort_key ?f (contents pq2')"
  from drain_contents[OF p3(1) 4] p3(3) have
    c: "contents (vboxes cm) = map (\<lambda>v. \<lparr>vbox = v, color = avg v\<rparr>) (rev ?S)" and
    k: "sort_key_pq (vboxes cm) = (\<lambda>x. count (vbox x) * volume (vbox x))" and
    u: "\<not> sorted_pq (vboxes cm)"
    by (simp_all add: CMap_init_def PQueue_init_def)
  have "?S \<noteq> []" using p3(2) by (metis length_sort length_0_conv)
  then have ne: "contents (vboxes cm) \<noteq> []" by (simp add: c)
  have "map entry_key (contents (vboxes cm)) = rev (map ?f ?S)"
    by (simp add: c comp_def entry_key_def rev_map)
  then have "sorted (rev (map entry_key (contents (vboxes cm))))" by simp
  moreover have "sort_key_pq (vboxes cm) = entry_key"
    by (simp add: k fun_eq_iff entry_key_def)
  ultimately show ?thesis using ne u by simp
qed

text \<open>
  Claim C9: the colour map that \<open>quantize\<close> returns lists its entries in the order of the
  drain, descending by count times volume, and this is the order of \<open>palette\<close>; a lookup
  (\<open>cmap_map\<close> or \<open>nearest\<close>) always succeeds and leaves the container sorted ascending by
  count times volume, so that \<open>palette\<close> read afterwards lists the colours in ascending
  order.
\<close>

theorem lookup_resorts_palette:
  assumes "quantize pxs N = Some (Inr cm)"
  shows "palette cm = map color (contents (vboxes cm)) \<and>
         sorted (rev (map entry_key (contents (vboxes cm)))) \<and>
         (\<exists>r cm'. cmap_map cm c = Inr (r, cm') \<and>
            contents (vboxes cm') = sort_key entry_key (contents (vboxes cm)) \<and>
            palette cm' = map color (sort_key entry_key (contents (vboxes cm))) \<and>
            sorted (map entry_key (contents (vboxes cm')))) \<and>
         (\<exists>r cm'. nearest cm c = Inr (r, cm') \<and>
            contents (vboxes cm') = sort_key entry_key (contents (vboxes cm)) \<and>
            palette cm' = map color (sort_key entry_key (contents (vboxes cm))) \<and>
            sorted (map entry_key (contents (vboxes cm'))))"
proof -
  from assms have "quantize_phases (get_histo pxs) (vbox_from_pixels pxs (get_histo pxs)) N =
      Some (Inr cm)"
    by (simp add: quantize_def Let_def split: if_splits)
  from quantize_phases_cmap[OF this] have
    ne: "contents (vboxes cm) \<noteq> []" and u: "\<not> sorted_pq (vboxes cm)" and
    k: "sort_key_pq (vboxes cm) = entry_key" and
    d: "sorted (rev (map entry_key (contents (vboxes cm))))"
    by simp_all
  let ?cm = "cm\<lparr>vboxes := ensure_sorted (vboxes cm)\<rparr>"
  have c: "contents (vboxes ?cm) = sort_key entry_key (contents (vboxes cm))"
    using u k by (simp add: ensure_sorted_def pq_sort_def)
  then have p: "palette ?cm = map color (sort_key entry_key (contents (vboxes cm)))"
    and s: "sorted (map entry_key (contents (vboxes ?cm)))"
    by (simp_all add: palette_def pq_map_def)
  from cmap_map_queue[OF ne, of c] nearest_queue[OF ne, of c] c p s d show ?thesis
    by (auto simp: palette_def pq_map_def)
qed

text \<open>
  Five pixels in three buckets: the palette starts with the colour of the most populated
  region before the lookup and ends with it afterwards.
\<close>

theorem lookup_resorts_palette_witness:
  "\<exists>cm. quantize [(0, 0, 0), (0, 0, 0), (0, 0, 0), (8, 0, 0), (16, 0, 0)] 2 = Some (Inr cm) \<and>
      palette cm = [(4, 4, 4), (12, 4, 4), (20, 4, 4)] \<and>
      map entry_key (contents (vboxes cm)) = [3, 1, 1] \<and>
      (\<exists>r cm'. cmap_map cm (0, 0, 0) = Inr (r, cm') \<and>
         palette cm' = [(12, 4, 4), (20, 4, 4), (4, 4, 4)] \<and>
         sorted (map entry_key (contents (vboxes cm'))))"
proof -
  have "(case quantize [(0, 0, 0), (0, 0, 0), (0, 0, 0), (8, 0, 0), (16, 0, 0)] 2 of
           Some (Inr cm) \<Rightarrow>
             palette cm = [(4, 4, 4), (12, 4, 4), (20, 4, 4)] \<and>
             map entry_key (contents (vboxes cm)) = [3, 1, 1] \<and>
             map color (sort_key entry_key (contents (vboxes cm))) =
               [(12, 4, 4), (20, 4, 4), (4, 4, 4)]
         | _ \<Rightarrow> False)"
    by code_simp
  then obtain cm where
    cm: "quantize [(0, 0, 0), (0, 0, 0), (0, 0, 0), (8, 0, 0), (16, 0, 0)] 2 = Some (Inr cm)" and
    ev: "palette cm = [(4, 4, 4), (12, 4, 4), (20, 4, 4)]"
      "map entry_key (contents (vboxes cm)) = [3, 1, 1]"
      "map color (sort_key entry_key (contents (vboxes cm))) = [(12, 4, 4), (20, 4, 4), (4, 4, 4)]"
    by (auto split: option.splits sum.splits)
  from lookup_resorts_palette [OF cm, of "(0, 0, 0)"] cm ev show ?thesis
    by auto
qed

subsection \<open>Failures of quantize\<close>

text \<open>
  On a non-empty pixel list and a target in \<open>[2, 256]\<close> the quantizer returns a colour
  map: the queue is never empty when it is popped, every region in it refers to the
  histogram of the call, whose counts are not negative, and the splitter returns a first
  child for every region that holds a pixel.
\<close>

lemma histo_add_nonneg:
  assumes "\<forall>i. 0 \<le> histo_get h i"
  shows "0 \<le> histo_get (histo_add p h) i"
proof -
  obtain p0 p1 p2 where p: "p = (p0, p1, p2)" by (cases p) auto
  from assms have "0 \<le> histo_get h j + 1" for j by (simp add: add_nonneg_nonneg)
  with assms show ?thesis
    by (auto simp: p histo_add_def Let_def histo_get_def split: option.splits)
qed

lemma fold_histo_add_nonneg:
  "\<forall>i. 0 \<le> histo_get h i \<Longrightarrow> 0 \<le> histo_get (fold histo_add pxs h) i"
proof (induction pxs arbitrary: h)
  case Nil
  then show ?case by simp
next
  case (Cons p pxs)
  have "\<forall>i. 0 \<le> histo_get (histo_add p h) i"
    using histo_add_nonneg[OF Cons.prems] by blast
  from Cons.IH[OF this] show ?case by (simp only: fold_Cons comp_apply)
qed

lemma get_histo_nonneg: "0 \<le> histo_get (get_histo pxs) i"
  unfolding get_histo_def by (rule fold_histo_add_nonneg) (simp add: histo_get_def)

lemma count_nonneg:
  assumes "\<forall>i. 0 \<le> histo_get (histo v) i"
  shows "0 \<le> count v"
  unfolding count_def using assms by (intro sum_list_nonneg) auto

lemma pq_pop_returns:
  assumes "contents q \<noteq> []"
  shows "\<exists>x q1. pq_pop q = Inr (x, q1)"
  using assms by (simp add: pq_pop_ensure ensure_sorted_Nil)

lemma pq_pop_set:
  assumes "pq_pop q = Inr (x, q1)"
  shows "set (contents q) = insert x (set (contents q1))"
proof -
  from pq_pop_ensure_Inr(1)[OF assms]
  have "set (contents (ensure_sorted q)) = insert x (set (contents q1))" by simp
  moreover have "set (contents (ensure_sorted q)) = set (contents q)"
    by (simp add: ensure_sorted_def pq_sort_def)
  ultimately show ?thesis by simp
qed

lemma histo_set_dim [simp]:
  "histo (set_dim1 a d v) = histo v" "histo (set_dim2 a d v) = histo v"
  by (cases a; simp add: set_dim1_def set_dim2_def)+

lemma iter_loop_returns:
  assumes nonneg: "\<forall>i. 0 \<le> histo_get h i"
    and "contents lh \<noteq> []" and "\<forall>v \<in> set (contents lh). histo v = h"
  shows "\<exists>lh'. iter_loop h lh t nc ni = Some (Inr lh')"
  using assms(2,3)
proof (induction "nat (MAX_ITERATION - ni)" arbitrary: lh nc ni rule: less_induct)
  case less
  show ?case
  proof (cases "ni < MAX_ITERATION")
    case False
    then show ?thesis by (subst iter_loop.simps) simp
  next
    case lt: True
    then have dec: "nat (MAX_ITERATION - (ni + 1)) < nat (MAX_ITERATION - ni)" by simp
    from pq_pop_returns[OF less.prems(1)] obtain x q1 where pop: "pq_pop lh = Inr (x, q1)"
      by blast
    from pq_pop_set[OF pop] less.prems(2) have hx: "histo x = h"
      and hq1: "\<forall>v \<in> set (contents q1). histo v = h" by auto
    have rec: "\<exists>lh'. iter_loop h (pq_push q1 y) t nc' (ni + 1) = Some (Inr lh')"
      if "histo y = h" for y nc'
      using that hq1 by (intro less.hyps[OF dec]) auto
    have rec2: "\<exists>lh'. iter_loop h (pq_push (pq_push q1 y) z) t nc' (ni + 1) = Some (Inr lh')"
      if "histo y = h" "histo z = h" for y z nc'
      using that hq1 by (intro less.hyps[OF dec]) auto
    from count_nonneg[of x] nonneg hx have "0 \<le> count x" by simp
    then consider "count x = 0" | "count x = 1" | "2 \<le> count x" by linarith
    then show ?thesis
    proof cases
      case 1
      with rec[OF hx, of nc] lt pop show ?thesis by (subst iter_loop.simps) simp
    next
      case 2
      then have "median_cut_apply h x = Some (Inr (Some x, None))"
        by (simp add: median_cut_apply_def)
      with rec[OF hx, of nc] lt pop 2 show ?thesis by (subst iter_loop.simps) simp
    next
      case 3
      from median_cut_apply_returns[OF hx 3] obtain d where
        "median_cut_apply h x =
           Some (Inr (Some (set_dim2 (do_cut_color x) d x),
                      Some (set_dim1 (do_cut_color x) (d + 1) x)))"
        by blast
      with rec2[of "set_dim2 (do_cut_color x) d x" "set_dim1 (do_cut_color x) (d + 1) x" "nc + 1"]
        hx lt pop 3 show ?thesis by (subst iter_loop.simps) simp
    qed
  qed
qed

lemma iter_loop_histo:
  assumes "iter_loop h lh t nc ni = Some (Inr lh')"
    and "\<forall>v \<in> set (contents lh). histo v = h'"
  shows "\<forall>v \<in> set (contents lh'). histo v = h'"
proof (rule iter_loop_invariant[OF assms(1), where P = "\<lambda>q. \<forall>v \<in> set (contents q). histo v = h'"])
  show "\<forall>v \<in> set (contents lh). histo v = h'" by (rule assms(2))
next
  fix q v q1
  assume "\<forall>v \<in> set (contents q). histo v = h'" "pq_pop q = Inr (v, q1)"
  then show "\<forall>v \<in> set (contents (pq_push q1 v)). histo v = h'"
    using pq_pop_set[of q v q1] by auto
next
  fix q v q1 v1
  assume "\<forall>v \<in> set (contents q). histo v = h'" "pq_pop q = Inr (v, q1)"
    "median_cut_apply h v = Some (Inr (Some v1, None))"
  then show "\<forall>v \<in> set (contents (pq_push q1 v1)). histo v = h'"
    using pq_pop_set[of q v q1] median_cut_apply_result[of h v "Some v1" None] by auto
next
  fix q v q1 v1 v2
  assume "\<forall>v \<in> set (contents q). histo v = h'" "pq_pop q = Inr (v, q1)"
    "median_cut_apply h v = Some (Inr (Some v1, Some v2))"
  then show "\<forall>v \<in> set (contents (pq_push (pq_push q1 v1) v2)). histo v = h'"
    using pq_pop_set[of q v q1] median_cut_apply_result[of h v "Some v1" "Some v2"] by auto
qed

lemma transfer_returns:
  "\<exists>q'. transfer pq pq2 = Inr q' \<and> set (contents q') = set (contents pq) \<union> set (contents pq2)"
proof (induction pq pq2 rule: transfer.induct)
  case (1 pq pq2)
  show ?case
  proof (cases "pq_size pq \<noteq> 0")
    case False
    then show ?thesis by (subst transfer.simps) (simp add: pq_size_def)
  next
    case True
    then have "contents pq \<noteq> []" by (simp add: pq_size_def)
    from pq_pop_returns[OF this] obtain x pq' where pop: "pq_pop pq = Inr (x, pq')" by blast
    from "1.IH"[OF True pop refl] obtain q' where
      "transfer pq' (pq_push pq2 x) = Inr q'"
      "set (contents q') = set (contents pq') \<union> set (contents (pq_push pq2 x))" by blast
    with True pop pq_pop_set[OF pop] show ?thesis by (subst transfer.simps) auto
  qed
qed

lemma drain_returns: "\<exists>cm'. drain pq2 cm = Inr cm'"
proof (induction pq2 cm rule: drain.induct)
  case (1 pq2 cm)
  show ?case
  proof (cases "pq_size pq2 \<noteq> 0")
    case False
    then show ?thesis by (subst drain.simps) simp
  next
    case True
    then have "contents pq2 \<noteq> []" by (simp add: pq_size_def)
    from pq_pop_returns[OF this] obtain x pq' where pop: "pq_pop pq2 = Inr (x, pq')" by blast
    from "1.IH"[OF True pop refl] True pop show ?thesis by (subst drain.simps) simp
  qed
qed

lemma quantize_phases_returns:
  assumes "\<forall>i. 0 \<le> histo_get h i" and "histo vbox0 = h"
  shows "\<exists>cm. quantize_phases h vbox0 N = Some (Inr cm)"
proof -
  let ?pq = "pq_push (PQueue_init count) vbox0"
  let ?f = "\<lambda>x. count x * volume x"
  have i0: "contents ?pq \<noteq> []" "\<forall>v \<in> set (contents ?pq). histo v = h" "pq_ordered ?pq"
    using assms(2) by (simp_all add: PQueue_init_def)
  from iter_loop_returns[OF assms(1) i0(1,2)] obtain pq' where
    1: "iter_loop h ?pq (FRACT_BY_POPULATIONS * of_int N) 1 0 = Some (Inr pq')" by blast
  from iter_loop_histo[OF 1 i0(2)] iter_loop_props[OF 1 i0(3,1)]
  have i1: "\<forall>v \<in> set (contents pq'). histo v = h" "contents pq' \<noteq> []" by simp_all
  from transfer_returns[of pq' "PQueue_init ?f"] obtain pq2 where
    2: "transfer pq' (PQueue_init ?f) = Inr pq2" and
    s2: "set (contents pq2) = set (contents pq')"
    by (auto simp: PQueue_init_def)
  from s2 i1 have i2: "contents pq2 \<noteq> []" "\<forall>v \<in> set (contents pq2). histo v = h"
    by (auto simp flip: set_empty)
  from iter_loop_returns[OF assms(1) i2] obtain pq2' where
    3: "iter_loop h pq2 (of_int (N - pq_size pq2)) 1 0 = Some (Inr pq2')" by blast
  from drain_returns obtain cm where 4: "drain pq2' CMap_init = Inr cm" by blast
  from 1 2 3 4 show ?thesis by (simp add: quantize_phases_def iter_def)
qed

lemma quantize_returns:
  assumes "pxs \<noteq> []" and "2 \<le> N" and "N \<le> 256"
  shows "\<exists>cm. quantize pxs N = Some (Inr cm)"
proof -
  have "histo (vbox_from_pixels pxs (get_histo pxs)) = get_histo pxs"
    by (simp add: vbox_from_pixels_def split: prod.splits)
  from quantize_phases_returns[OF _ this, of N] get_histo_nonneg assms show ?thesis
    by (simp add: quantize_def Let_def)
qed

text \<open>
  Claim C5: \<open>quantize\<close> fails with \<open>EmptyInput\<close> exactly when the pixel sequence is empty,
  and with \<open>InvalidArgument\<close> exactly when the sequence is non-empty and the target is
  outside \<open>[2, 256]\<close>, in particular for the targets 1 and 257; a failure is a value
  \<open>Inl e\<close>, which carries no palette. In every other case it returns a colour map.
\<close>

theorem quantize_failures:
  "(quantize pxs N = Some (Inl EmptyInput) \<longleftrightarrow> pxs = []) \<and>
   (quantize pxs N = Some (Inl InvalidArgument) \<longleftrightarrow> pxs \<noteq> [] \<and> (N < 2 \<or> N > 256)) \<and>
   (pxs \<noteq> [] \<and> 2 \<le> N \<and> N \<le> 256 \<longrightarrow> (\<exists>cm. quantize pxs N = Some (Inr cm))) \<and>
   quantize (p # ps) 1 = Some (Inl InvalidArgument) \<and>
   quantize (p # ps) 257 = Some (Inl InvalidArgument)"
proof -
  have ok: "\<exists>cm. quantize pxs N = Some (Inr cm)" if "pxs \<noteq> []" "2 \<le> N" "N \<le> 256"
    using that by (rule quantize_returns)
  have e: "quantize pxs N = Some (Inl EmptyInput)" if "pxs = []"
    using that by (simp add: quantize_def)
  have i: "quantize pxs N = Some (Inl InvalidArgument)" if "pxs \<noteq> []" "N < 2 \<or> N > 256"
    using that by (auto simp: quantize_def)
  have "quantize (p # ps) 1 = Some (Inl InvalidArgument)"
    "quantize (p # ps) 257 = Some (Inl InvalidArgument)"
    by (simp_all add: quantize_def)
  moreover have "quantize pxs N = Some (Inl EmptyInput) \<longleftrightarrow> pxs = []"
    using ok e i by (cases "pxs = []"; cases "N < 2 \<or> N > 256") auto
  moreover have "quantize pxs N = Some (Inl InvalidArgument) \<longleftrightarrow> pxs \<noteq> [] \<and> (N < 2 \<or> N > 256)"
    using ok e i by (cases "pxs = []"; cases "N < 2 \<or> N > 256") auto
  ultimately show ?thesis using ok by blast
qed

text \<open>One pixel: the targets 1 and 257 fail, the target 2 gives a colour map.\<close>

theorem quantize_failures_witness:
  "[(0, 0, 0)] \<noteq> ([] :: pixel list) \<and> (2 :: int) \<le> 2 \<and> (2 :: int) \<le> 256 \<and>
   (\<exists>cm. quantize [(0, 0, 0)] 2 = Some (Inr cm)) \<and>
   quantize [] 2 = Some (Inl EmptyInput) \<and>
   quantize [(0, 0, 0)] 1 = Some (Inl InvalidArgument) \<and>
   quantize [(0, 0, 0)] 257 = Some (Inl InvalidArgument)"
  using quantize_failures [of "[(0, 0, 0)]" 2 "(0, 0, 0)" "[]"] quantize_failures [of "[]" 2]
  by simp

subsection \<open>Determinism of quantize\<close>





declare iter_loop_with.simps [simp del]








text \<open>
  Stability is needed. A sort that is ascending but reverses the elements of equal score
  gives another palette on five pixels whose regions score 3, 1 and 1.
\<close>

lemma quantize_with_unstable_sort:
  "sorted (map f (sort_key f (rev xs))) \<and>
   map_option (map_sum id palette)
     (quantize_with (\<lambda>f xs. sort_key f (rev xs))
        [(0, 0, 0), (0, 0, 0), (0, 0, 0), (8, 0, 0), (16, 0, 0)] 2) \<noteq>
   map_option (map_sum id palette)
     (quantize [(0, 0, 0), (0, 0, 0), (0, 0, 0), (8, 0, 0), (16, 0, 0)] 2)"
proof -
  have "map_option (map_sum id palette)
     (quantize_with (\<lambda>f xs. sort_key f (rev xs))
        [(0, 0, 0), (0, 0, 0), (0, 0, 0), (8, 0, 0), (16, 0, 0)] 2) \<noteq>
   map_option (map_sum id palette)
     (quantize [(0, 0, 0), (0, 0, 0), (0, 0, 0), (8, 0, 0), (16, 0, 0)] 2)"
    by code_simp
  then show ?thesis by simp
qed



end
